theory Spec2Isabelle
  imports Main "HOL-Library.Word"
begin

section \<open>Strings\<close>

text \<open>
  A JavaScript string is a sequence of 16-bit code units; a \<open>Buffer\<close> is a sequence of
  bytes. String literals of the source are written with \<open>js\<close>.
\<close>

type_synonym byte = "8 word"
type_synonym jschar = "16 word"
type_synonym jsstring = "jschar list"

definition js :: "string \<Rightarrow> jsstring" where
  "js s = map (\<lambda>c. of_nat (of_char c)) s"

section \<open>Push connections (lib/sse.ts)\<close>

text \<open>
  What \<open>SSEConnection\<close> hands to the response: \<open>DataLine d\<close> stands for the string
  \<open>data: ${JSON.stringify(d)}\n\n\<close>, \<open>EventLine e\<close> for \<open>event: ${e}\n\<close>.
\<close>

datatype 'a payload =
    Value 'a
  | Timestamp jsstring
  | Message jsstring

datatype 'a wr =
    WriteHead
  | RetryLine
  | FlushHeaders
  | EventLine string
  | DataLine "'a payload"

text \<open>
  The express response as the connection uses it: the writes made so far, whether the
  stream is destroyed, whether \<open>end()\<close> has been called, and whether \<open>write\<close> and
  \<open>end\<close> throw.
\<close>

record 'a response =
  written :: "'a wr list"
  destroyed :: bool
  ended :: bool
  write_throws :: bool
  end_throws :: bool

text \<open>
  The fields of the class, and the part of the event loop that belongs to the
  connection: whether the interval started by \<open>startHeartbeat\<close> is still scheduled, and
  how many times the connection has called \<open>clearInterval\<close>.
\<close>

record 'a SSEConnection =
  res :: "'a response"
  connectionId :: string
  heartbeatInterval :: "nat option"
  isClosed :: bool
  timer_scheduled :: bool
  clearInterval_calls :: nat

definition res_write :: "'a wr \<Rightarrow> 'a response \<Rightarrow> 'a response" where
  "res_write w r = r\<lparr>written := written r @ [w]\<rparr>"

text \<open>
  \<open>setupConnection\<close> writes the head and the retry line outside any \<open>try\<close>: when
  \<open>res.write\<close> throws, the constructor throws, and there is no connection and no
  heartbeat interval (\<open>None\<close>).
\<close>

definition setupConnection :: "'a SSEConnection \<Rightarrow> 'a SSEConnection option" where
  "setupConnection c =
     (if write_throws (res c) then None
      else Some (c\<lparr>res := res_write FlushHeaders
                          (res_write RetryLine (res_write WriteHead (res c)))\<rparr>))"

definition startHeartbeat :: "nat \<Rightarrow> 'a SSEConnection \<Rightarrow> 'a SSEConnection" where
  "startHeartbeat h c = c\<lparr>heartbeatInterval := Some h, timer_scheduled := True\<rparr>"

text \<open>The constructor; \<open>h\<close> is the handle that \<open>setInterval\<close> returns.\<close>

definition new_SSEConnection ::
  "'a response \<Rightarrow> string \<Rightarrow> nat \<Rightarrow> 'a SSEConnection option" where
  "new_SSEConnection r cid h =
     (case setupConnection
             \<lparr>res = r, connectionId = cid, heartbeatInterval = None, isClosed = False,
              timer_scheduled = False, clearInterval_calls = 0\<rparr> of
        None \<Rightarrow> None
      | Some c \<Rightarrow> Some (startHeartbeat h c))"

definition close :: "'a SSEConnection \<Rightarrow> 'a SSEConnection" where
  "close c =
     (if isClosed c then c
      else
        let c1 = c\<lparr>isClosed := True\<rparr>;
            c2 = (if heartbeatInterval c1 \<noteq> None
                  then c1\<lparr>timer_scheduled := False,
                          clearInterval_calls := clearInterval_calls c1 + 1\<rparr>
                  else c1)
        in if \<not> destroyed (res c2)
           then (if end_throws (res c2) then c2
                 else c2\<lparr>res := (res c2)\<lparr>ended := True\<rparr>\<rparr>)
           else c2)"

definition sendData :: "'a \<Rightarrow> 'a SSEConnection \<Rightarrow> 'a SSEConnection" where
  "sendData d c =
     (if isClosed c then c
      else if write_throws (res c) then close c
      else c\<lparr>res := res_write (DataLine (Value d)) (res c)\<rparr>)"

definition sendEvent :: "string \<Rightarrow> 'a payload \<Rightarrow> 'a SSEConnection \<Rightarrow> 'a SSEConnection" where
  "sendEvent e d c =
     (if isClosed c then c
      else if write_throws (res c) then close c
      else c\<lparr>res := res_write (DataLine d) (res_write (EventLine e) (res c))\<rparr>)"

definition sendError :: "jsstring \<Rightarrow> 'a SSEConnection \<Rightarrow> 'a SSEConnection" where
  "sendError m c = sendEvent ''error'' (Message m) c"

definition isClosed' :: "'a SSEConnection \<Rightarrow> bool" where
  "isClosed' c = (isClosed c \<or> destroyed (res c))"

text \<open>
  The callback that \<open>startHeartbeat\<close> registers, and the event loop running it: the
  callback runs only while the interval is scheduled. \<open>now\<close> is
  \<open>new Date().toISOString()\<close> at that moment.
\<close>

definition heartbeat_callback :: "jsstring \<Rightarrow> 'a SSEConnection \<Rightarrow> 'a SSEConnection" where
  "heartbeat_callback now c =
     (if \<not> isClosed c then sendEvent ''ping'' (Timestamp now) c else c)"

definition heartbeat_fires :: "jsstring \<Rightarrow> 'a SSEConnection \<Rightarrow> 'a SSEConnection" where
  "heartbeat_fires now c = (if timer_scheduled c then heartbeat_callback now c else c)"

section \<open>The container engine (lib/docker.ts)\<close>

text \<open>
  The engine is a collaborator. The model holds what \<open>container.inspect()\<close> answers
  for each container name (\<open>Inl\<close> the message of the error it throws), which commands
  the engine rejects (with the message of the error thrown), and the commands issued to
  it so far. A rejected command has been issued all the same.
\<close>

record inspect_result =
  State_Running :: bool
  State_Health_Status :: "jsstring option"
  State_StartedAt :: jsstring
  State_FinishedAt :: jsstring
  Config_Env :: "jsstring list option"

datatype command = Start jsstring | Stop jsstring nat

record docker =
  inspect :: "jsstring \<Rightarrow> jsstring + inspect_result"
  rejects :: "command \<Rightarrow> jsstring option"
  issued :: "command list"

datatype error = Error jsstring

definition issue :: "command \<Rightarrow> docker \<Rightarrow> (jsstring + unit) \<times> docker" where
  "issue c d =
     (case rejects d c of
        Some m \<Rightarrow> (Inl m, d\<lparr>issued := issued d @ [c]\<rparr>)
      | None \<Rightarrow> (Inr (), d\<lparr>issued := issued d @ [c]\<rparr>))"

definition startContainer :: "jsstring \<Rightarrow> docker \<Rightarrow> (error + unit) \<times> docker" where
  "startContainer containerName d =
     (case inspect d containerName of
        Inl m \<Rightarrow> (Inl (Error (js ''Failed to start container: '' @ m)), d)
      | Inr info \<Rightarrow>
          if \<not> State_Running info
          then (case issue (Start containerName) d of
                  (Inl m, d') \<Rightarrow> (Inl (Error (js ''Failed to start container: '' @ m)), d')
                | (Inr u, d') \<Rightarrow> (Inr (), d'))
          else (Inr (), d))"

definition stopContainer :: "jsstring \<Rightarrow> docker \<Rightarrow> (error + unit) \<times> docker" where
  "stopContainer containerName d =
     (case inspect d containerName of
        Inl m \<Rightarrow> (Inl (Error (js ''Failed to stop container: '' @ m)), d)
      | Inr info \<Rightarrow>
          if State_Running info
          then (case issue (Stop containerName 10) d of
                  (Inl m, d') \<Rightarrow> (Inl (Error (js ''Failed to stop container: '' @ m)), d')
                | (Inr u, d') \<Rightarrow> (Inr (), d'))
          else (Inr (), d))"

text \<open>A pipeline container that inspection reports running or not, and no other.\<close>

definition demo_info :: "bool \<Rightarrow> inspect_result" where
  "demo_info r =
     \<lparr>State_Running = r, State_Health_Status = None,
      State_StartedAt = js ''2025-01-01T00:00:00Z'',
      State_FinishedAt = js ''2025-01-01T01:00:00Z'', Config_Env = None\<rparr>"

definition demo_docker :: "bool \<Rightarrow> docker" where
  "demo_docker r =
     \<lparr>inspect = (\<lambda>n. if n = js ''media-pipeline'' then Inr (demo_info r)
                      else Inl (js ''no such container'')),
      rejects = (\<lambda>c. None), issued = []\<rparr>"

section \<open>JavaScript string functions\<close>

text \<open>
  The code units that \<open>String.prototype.trim\<close>, \<open>parseInt\<close> and the regular
  expression class \<open>\s\<close> treat as white space: the WhiteSpace and LineTerminator
  productions of ECMAScript.
\<close>

definition isWhiteSpace :: "jschar \<Rightarrow> bool" where
  "isWhiteSpace c =
     (c = 0x9 \<or> c = 0xA \<or> c = 0xB \<or> c = 0xC \<or> c = 0xD \<or> c = 0x20 \<or> c = 0xA0
      \<or> c = 0x1680 \<or> (0x2000 \<le> c \<and> c \<le> 0x200A) \<or> c = 0x2028 \<or> c = 0x2029
      \<or> c = 0x202F \<or> c = 0x205F \<or> c = 0x3000 \<or> c = 0xFEFF)"

definition trim :: "jsstring \<Rightarrow> jsstring" where
  "trim s = rev (dropWhile isWhiteSpace (rev (dropWhile isWhiteSpace s)))"

definition startsWith :: "jsstring \<Rightarrow> jsstring \<Rightarrow> bool" where
  "startsWith p s = (take (length p) s = p)"

definition endsWith :: "jsstring \<Rightarrow> jsstring \<Rightarrow> bool" where
  "endsWith p s = (length p \<le> length s \<and> drop (length s - length p) s = p)"

text \<open>\<open>s.split(sep)\<close> for a separator of one code unit: never the empty array.\<close>

fun js_split :: "jschar \<Rightarrow> jsstring \<Rightarrow> jsstring list" where
  "js_split sep [] = [[]]"
| "js_split sep (c # cs) =
     (if c = sep then [] # js_split sep cs
      else (case js_split sep cs of
              x # xs \<Rightarrow> (c # x) # xs
            | [] \<Rightarrow> [[c]]))"

text \<open>\<open>xs.join(sep)\<close>.\<close>

fun js_join :: "jsstring \<Rightarrow> jsstring list \<Rightarrow> jsstring" where
  "js_join sep [] = []"
| "js_join sep [x] = x"
| "js_join sep (x # y # ys) = x @ sep @ js_join sep (y # ys)"

text \<open>
  A JavaScript number that holds an integer: a double, so an integer beyond \<open>2^53\<close>
  is rounded to the nearest double (ties to the even mantissa), and one that rounds to
  \<open>2^1024\<close> or more is an infinity. \<open>toDouble\<close> is that rounding on the natural
  numbers, \<open>None\<close> for infinity. Minus zero is not told from zero: both print as
  \<open>0\<close>.
\<close>

datatype jsnumber = Num int | Infinity | MinusInfinity




text \<open>
  \<open>parseInt(s)\<close> with no radix: leading white space is skipped, a sign is read, a prefix
  \<open>0x\<close> or \<open>0X\<close> selects radix 16, and the longest run of digits of the radix is the
  value, as a number; \<open>None\<close> is \<open>NaN\<close>.
\<close>

definition digitValue :: "jschar \<Rightarrow> nat option" where
  "digitValue c =
     (if 0x30 \<le> c \<and> c \<le> 0x39 then Some (unat c - 0x30)
      else if 0x61 \<le> c \<and> c \<le> 0x66 then Some (unat c - 0x61 + 10)
      else if 0x41 \<le> c \<and> c \<le> 0x46 then Some (unat c - 0x41 + 10)
      else None)"

definition isDigitOf :: "nat \<Rightarrow> jschar \<Rightarrow> bool" where
  "isDigitOf R c = (case digitValue c of Some v \<Rightarrow> v < R | None \<Rightarrow> False)"

definition digitsValue :: "nat \<Rightarrow> jsstring \<Rightarrow> nat" where
  "digitsValue R Z = foldl (\<lambda>a c. a * R + the (digitValue c)) 0 Z"


section \<open>The status projection (lib/docker.ts, routes/status.ts)\<close>

datatype container_state = state_running | state_stopped | state_unknown

record ContainerInfo =
  name :: jsstring
  state :: container_state
  health :: "jsstring option"
  startedAt :: "jsstring option"
  finishedAt :: "jsstring option"

text \<open>\<open>x || 'none'\<close> on an optional string: absent and empty are both falsy.\<close>

definition truthy :: "jsstring option \<Rightarrow> bool" where
  "truthy x = (case x of None \<Rightarrow> False | Some s \<Rightarrow> s \<noteq> [])"

definition getContainerInfo :: "docker \<Rightarrow> jsstring \<Rightarrow> ContainerInfo" where
  "getContainerInfo d containerName =
     (case inspect d containerName of
        Inr info \<Rightarrow>
          \<lparr>name = containerName,
           state = (if State_Running info then state_running else state_stopped),
           health = (if truthy (State_Health_Status info) then State_Health_Status info
                     else Some (js ''none'')),
           startedAt = Some (State_StartedAt info),
           finishedAt = Some (State_FinishedAt info)\<rparr>
      | Inl m \<Rightarrow>
          \<lparr>name = containerName, state = state_unknown, health = None,
           startedAt = None, finishedAt = None\<rparr>)"

datatype updown = up | down | unknown


record Status =
  pipeline :: container_state
  containerName :: jsstring
  vpn :: updown
  tor :: updown
  lastRunAt :: "jsstring option"
  cleanJobs :: "jsnumber option"
  version :: jsstring



text \<open>
  What the table of the projection calls \<open><int>\<close>: an integer written in decimal, with
  a minus sign when negative.
\<close>

definition digitChar :: "nat \<Rightarrow> jschar" where
  "digitChar d = of_nat (48 + d)"

fun digitsOf :: "nat \<Rightarrow> jsstring" where
  "digitsOf n =
     (if n < 10 then [digitChar n]
      else digitsOf (n div 10) @ [digitChar (n mod 10)])"

declare digitsOf.simps [simp del]












section \<open>The status stream (routes/status.ts)\<close>

text \<open>
  \<open>createStatusRouter\<close> declares \<open>lastStatus\<close> once, outside the handler of
  \<open>GET /stream\<close>: every connection that the handler opens reads and writes the same
  variable. The router's state is that variable and the connections opened so far, each
  under the number of its request. Two snapshots are compared by
  \<open>JSON.stringify\<close>, which gives equal strings exactly for snapshots with equal
  values of \<open>JSON_stringify\<close>. Each step takes the snapshot that
  \<open>await getCurrentStatus()\<close> returned to it.
\<close>

text \<open>
  What \<open>JSON.stringify\<close> keeps of a snapshot: both infinities print as \<open>null\<close>.
\<close>

definition JSON_stringify :: "Status \<Rightarrow> Status" where
  "JSON_stringify s =
     s\<lparr>cleanJobs := (if cleanJobs s = Some MinusInfinity then Some Infinity else cleanJobs s)\<rparr>"

record status_router =
  lastStatus :: "Status option"
  conns :: "nat \<rightharpoonup> Status SSEConnection"

definition createStatusRouter :: status_router where
  "createStatusRouter = \<lparr>lastStatus = None, conns = Map.empty\<rparr>"

text \<open>The handler of \<open>GET /stream\<close>, up to its first snapshot.\<close>

definition stream_open ::
  "nat \<Rightarrow> Status response \<Rightarrow> string \<Rightarrow> nat \<Rightarrow> Status \<Rightarrow> status_router \<Rightarrow> status_router" where
  "stream_open k r cid h initialStatus rt =
     (case new_SSEConnection r cid h of
        None \<Rightarrow> rt
      | Some connection \<Rightarrow>
          let connection' = sendData initialStatus connection
          in rt\<lparr>conns := (conns rt)(k \<mapsto> connection'), lastStatus := Some initialStatus\<rparr>)"

text \<open>
  The change detection that the handler of a Docker event and the five-second interval
  share: \<open>if (!lastStatus || JSON.stringify(currentStatus) !== JSON.stringify(lastStatus))\<close>.
\<close>

definition send_if_changed :: "nat \<Rightarrow> Status \<Rightarrow> status_router \<Rightarrow> status_router" where
  "send_if_changed k currentStatus rt =
     (case conns rt k of
        None \<Rightarrow> rt
      | Some connection \<Rightarrow>
          if lastStatus rt = None
             \<or> Some (JSON_stringify currentStatus) \<noteq> map_option JSON_stringify (lastStatus rt)
          then rt\<lparr>conns := (conns rt)(k \<mapsto> sendData currentStatus connection),
                  lastStatus := Some currentStatus\<rparr>
          else rt)"

definition on_docker_event :: "nat \<Rightarrow> Status \<Rightarrow> status_router \<Rightarrow> status_router" where
  "on_docker_event k currentStatus rt = send_if_changed k currentStatus rt"

definition heartbeatInterval_tick :: "nat \<Rightarrow> Status \<Rightarrow> status_router \<Rightarrow> status_router" where
  "heartbeatInterval_tick k currentStatus rt =
     (case conns rt k of
        None \<Rightarrow> rt
      | Some connection \<Rightarrow>
          if isClosed' connection then rt
          else send_if_changed k currentStatus rt)"

text \<open>The snapshots that a connection has been sent.\<close>

fun data_of :: "'a wr list \<Rightarrow> 'a list" where
  "data_of [] = []"
| "data_of (DataLine (Value d) # ws) = d # data_of ws"
| "data_of (w # ws) = data_of ws"

definition pushed :: "nat \<Rightarrow> status_router \<Rightarrow> Status list" where
  "pushed k rt = (case conns rt k of None \<Rightarrow> [] | Some c \<Rightarrow> data_of (written (res c)))"

text \<open>Two snapshots that differ in the VPN, and a response nothing has been written to.\<close>

definition status_vpn_up :: Status where
  "status_vpn_up =
     \<lparr>pipeline = state_running, containerName = js ''media-pipeline'', vpn = up, tor = up,
      lastRunAt = None, cleanJobs = None, version = js ''1.0.0''\<rparr>"

definition status_vpn_down :: Status where
  "status_vpn_down =
     \<lparr>pipeline = state_running, containerName = js ''media-pipeline'', vpn = down, tor = up,
      lastRunAt = None, cleanJobs = None, version = js ''1.0.0''\<rparr>"

definition fresh_response :: "Status response" where
  "fresh_response =
     \<lparr>written = [], destroyed = False, ended = False, write_throws = False,
      end_throws = False\<rparr>"

text \<open>The connection that the constructor makes on that response.\<close>

definition first_connection :: "Status SSEConnection" where
  "first_connection =
     \<lparr>res = \<lparr>written = [WriteHead, RetryLine, FlushHeaders], destroyed = False,
             ended = False, write_throws = False, end_throws = False\<rparr>,
      connectionId = ''sse_1'', heartbeatInterval = Some 1, isClosed = False,
      timer_scheduled = True, clearInterval_calls = 0\<rparr>"

text \<open>
  Two clients connect while the VPN is up. The VPN goes down; the interval of the first
  connection fires, then that of the second.
\<close>

definition two_clients :: status_router where
  "two_clients =
     stream_open 2 fresh_response ''sse_2'' 2 status_vpn_up
       (stream_open 1 fresh_response ''sse_1'' 1 status_vpn_up createStatusRouter)"

definition missed_update :: status_router where
  "missed_update =
     heartbeatInterval_tick 2 status_vpn_down
       (heartbeatInterval_tick 1 status_vpn_down two_clients)"

text \<open>
  The VPN goes down, comes back and goes down again: the first connection sees it down,
  the second sees it up, the first sees it down again.
\<close>

definition pushed_twice :: status_router where
  "pushed_twice =
     heartbeatInterval_tick 1 status_vpn_down
       (heartbeatInterval_tick 2 status_vpn_up
         (heartbeatInterval_tick 1 status_vpn_down two_clients))"

section \<open>The link store (lib/files.ts)\<close>

text \<open>
  The file system as \<open>FileService\<close> sees it: what reading the links file gives (its
  text, or the error thrown), the modification time of the file as an ISO string,
  whether the directory of the file exists, the message of the error that \<open>mkdir\<close>
  throws (if it throws), whether writing fails, and how many times \<open>writeFile\<close> has
  been called. The text of the file is the string that reading it as UTF-8 gives.
\<close>

datatype fs_error = ENOENT | EIO

record fs =
  content :: "fs_error + jsstring"
  mtime :: jsstring
  dir_exists :: bool
  mkdir_throws :: "jsstring option"
  write_fails :: bool
  writes :: nat

text \<open>
  Writing a string as UTF-8 and reading it back: a surrogate code unit that is not part
  of a pair (a high one followed by a low one) comes back as U+FFFD.
\<close>

definition isHigh :: "jschar \<Rightarrow> bool" where
  "isHigh c = (0xD800 \<le> c \<and> c \<le> 0xDBFF)"

definition isLow :: "jschar \<Rightarrow> bool" where
  "isLow c = (0xDC00 \<le> c \<and> c \<le> 0xDFFF)"

fun toWellFormed :: "jsstring \<Rightarrow> jsstring" where
  "toWellFormed [] = []"
| "toWellFormed [c] = (if isHigh c \<or> isLow c then [0xFFFD] else [c])"
| "toWellFormed (c # d # cs) =
     (if isHigh c \<and> isLow d then c # d # toWellFormed cs
      else if isHigh c \<or> isLow c then 0xFFFD # toWellFormed (d # cs)
      else c # toWellFormed (d # cs))"

definition well_formed :: "jsstring \<Rightarrow> bool" where
  "well_formed s = (toWellFormed s = s)"

record Link =
  link_id :: jsstring
  url :: jsstring
  addedAt :: jsstring

text \<open>
  \<open>generateId\<close> is the SHA-256 of the url in hexadecimal. The hash function of the
  \<open>crypto\<close> library is a parameter of the model.
\<close>

definition generateId :: "(jsstring \<Rightarrow> jsstring) \<Rightarrow> jsstring \<Rightarrow> jsstring" where
  "generateId sha256_hex u = sha256_hex u"

text \<open>
  \<open>ensureDirectoryExists\<close> is called outside any \<open>try\<close>: the error of \<open>mkdir\<close>
  leaves \<open>addLink\<close> and \<open>addBulkLinks\<close> as it is.
\<close>

definition ensureDirectoryExists :: "fs \<Rightarrow> error + fs" where
  "ensureDirectoryExists f =
     (if dir_exists f then Inr f
      else (case mkdir_throws f of
              Some m \<Rightarrow> Inl (Error m)
            | None \<Rightarrow> Inr (f\<lparr>dir_exists := True\<rparr>)))"

text \<open>The lines of the file that count: trimmed, and not empty.\<close>

definition stored_urls :: "jsstring \<Rightarrow> jsstring list" where
  "stored_urls c = filter (\<lambda>line. length line > 0) (map trim (js_split 0xA c))"

definition readLinks :: "(jsstring \<Rightarrow> jsstring) \<Rightarrow> fs \<Rightarrow> error + Link list" where
  "readLinks H f =
     (case content f of
        Inr c \<Rightarrow>
          Inr (map (\<lambda>u. \<lparr>link_id = generateId H u, url = u, addedAt = mtime f\<rparr>)
                 (stored_urls c))
      | Inl ENOENT \<Rightarrow> Inr []
      | Inl EIO \<Rightarrow> Inl (Error (js ''Failed to read links file'')))"

text \<open>
  Writing the new text to the temporary file and renaming it over the links file: the
  file has the new text, or, when writing fails, the temporary file is removed and the
  links file is as it was. The text is written as UTF-8.
\<close>

definition write_and_rename :: "jsstring \<Rightarrow> jsstring \<Rightarrow> fs \<Rightarrow> bool \<times> fs" where
  "write_and_rename newContent now f =
     (if write_fails f then (False, f\<lparr>writes := writes f + 1\<rparr>)
      else (True, f\<lparr>content := Inr (toWellFormed newContent), mtime := now,
                    writes := writes f + 1\<rparr>))"

text \<open>The text to which \<open>addLink\<close> and \<open>addBulkLinks\<close> append.\<close>

definition separator :: "jsstring \<Rightarrow> jsstring" where
  "separator currentContent =
     (if currentContent \<noteq> [] \<and> \<not> endsWith (js ''\<newline>'') currentContent
      then js ''\<newline>'' else [])"

definition addLink ::
  "(jsstring \<Rightarrow> jsstring) \<Rightarrow> jsstring \<Rightarrow> jsstring \<Rightarrow> fs \<Rightarrow> (error + jsstring \<times> bool) \<times> fs" where
  "addLink H now u f0 =
     (case ensureDirectoryExists f0 of
        Inl e \<Rightarrow> (Inl e, f0)
      | Inr f \<Rightarrow>
          let i = generateId H u in
          (case readLinks H f of
             Inl e \<Rightarrow> (Inl e, f)
           | Inr existingLinks \<Rightarrow>
               (case find (\<lambda>link. url link = u) existingLinks of
                  Some existing \<Rightarrow> (Inr (link_id existing, False), f)
                | None \<Rightarrow>
                    (case content f of
                       Inl EIO \<Rightarrow> (Inl (Error (js ''Failed to add link to file'')), f)
                     | other \<Rightarrow>
                         let currentContent = (case other of Inr c \<Rightarrow> c | Inl e \<Rightarrow> []);
                             newContent = currentContent @ separator currentContent
                                            @ u @ js ''\<newline>''
                         in (case write_and_rename newContent now f of
                               (True, f') \<Rightarrow> (Inr (i, True), f')
                             | (False, f') \<Rightarrow>
                                 (Inl (Error (js ''Failed to add link to file'')), f'))))))"

definition addBulkLinks ::
  "(jsstring \<Rightarrow> jsstring) \<Rightarrow> jsstring \<Rightarrow> jsstring list \<Rightarrow> fs \<Rightarrow> (error + nat) \<times> fs" where
  "addBulkLinks H now urls f0 =
     (case ensureDirectoryExists f0 of
        Inl e \<Rightarrow> (Inl e, f0)
      | Inr f \<Rightarrow>
          (case readLinks H f of
             Inl e \<Rightarrow> (Inl e, f)
           | Inr existingLinks \<Rightarrow>
               let existingUrls = set (map url existingLinks);
                   newUrls = filter (\<lambda>u. u \<notin> existingUrls) urls
               in if length newUrls = 0 then (Inr 0, f)
                  else
                    (case content f of
                       Inl EIO \<Rightarrow> (Inl (Error (js ''Failed to add bulk links to file'')), f)
                     | other \<Rightarrow>
                         let currentContent = (case other of Inr c \<Rightarrow> c | Inl e \<Rightarrow> []);
                             newLines = js_join (js ''\<newline>'') newUrls;
                             newContent = currentContent @ separator currentContent
                                            @ newLines @ js ''\<newline>''
                         in (case write_and_rename newContent now f of
                               (True, f') \<Rightarrow> (Inr (length newUrls), f')
                             | (False, f') \<Rightarrow>
                                 (Inl (Error (js ''Failed to add bulk links to file'')), f')))))"

definition removeLink ::
  "(jsstring \<Rightarrow> jsstring) \<Rightarrow> jsstring \<Rightarrow> jsstring \<Rightarrow> fs \<Rightarrow> (error + bool) \<times> fs" where
  "removeLink H now i f =
     (case readLinks H f of
        Inl e \<Rightarrow> (Inl e, f)
      | Inr links \<Rightarrow>
          (case find (\<lambda>link. link_id link = i) links of
             None \<Rightarrow> (Inr False, f)
           | Some linkToRemove \<Rightarrow>
               let remainingUrls = map url (filter (\<lambda>link. link_id link \<noteq> i) links);
                   newContent = (if length remainingUrls > 0
                                 then js_join (js ''\<newline>'') remainingUrls @ js ''\<newline>''
                                 else [])
               in (case write_and_rename newContent now f of
                     (True, f') \<Rightarrow> (Inr True, f')
                   | (False, f') \<Rightarrow>
                       (Inl (Error (js ''Failed to remove link from file'')), f'))))"

text \<open>The urls that \<open>readLinks\<close> returns, for a file system that can be read.\<close>

definition urls_of :: "fs \<Rightarrow> jsstring list" where
  "urls_of f = (case content f of Inr c \<Rightarrow> stored_urls c | Inl e \<Rightarrow> [])"

text \<open>
  A url that is stored as one line and read back as it is: not empty, no white space at
  either end, no line break inside.
\<close>

definition one_line :: "jsstring \<Rightarrow> bool" where
  "one_line u = (u \<noteq> [] \<and> trim u = u \<and> 0xA \<notin> set u)"

text \<open>A file system with no links file yet, in a directory that exists.\<close>

definition no_file :: fs where
  "no_file =
     \<lparr>content = Inl ENOENT, mtime = [], dir_exists = True, mkdir_throws = None,
      write_fails = False, writes = 0\<rparr>"

text \<open>
  The text that \<open>addLink\<close> and \<open>addBulkLinks\<close> read before appending (empty when
  there is no file), and the text that \<open>removeLink\<close> writes for the urls that remain.
\<close>

definition current_text :: "fs \<Rightarrow> jsstring" where
  "current_text f = (case content f of Inr c \<Rightarrow> c | Inl e \<Rightarrow> [])"

definition lines_text :: "jsstring list \<Rightarrow> jsstring" where
  "lines_text us = (if length us > 0 then js_join (js ''\<newline>'') us @ js ''\<newline>'' else [])"

text \<open>A url of the kind the interface is used with, and a hash function for examples.\<close>

definition folder_a :: jsstring where
  "folder_a = js ''https://mega.nz/folder/a''"

definition folder_b :: jsstring where
  "folder_b = js ''https://mega.nz/folder/b''"

definition toy_hash :: "jsstring \<Rightarrow> jsstring" where
  "toy_hash u = js ''#'' @ u"

text \<open>
  A store whose file holds the given urls, one per line, and the url of the first
  example with a space after it.
\<close>

definition store_of :: "jsstring list \<Rightarrow> fs" where
  "store_of us =
     \<lparr>content = Inr (lines_text us), mtime = js ''2025-01-01T00:00:00.000Z'',
      dir_exists = True, mkdir_throws = None, write_fails = False, writes = 0\<rparr>"


section \<open>The log framer (routes/logs.ts)\<close>

text \<open>
  A record as \<open>processLogData\<close> hands it to \<open>connection.sendData\<close>, and what the code
  knows of it before it reads the clock: the timestamp that the line carries, if it
  carries one.
\<close>

datatype log_level = level_info | level_error

record LogEntry =
  ts :: jsstring
  line :: jsstring
  level :: log_level

record unstamped =
  embedded :: "jsstring option"
  text_of :: jsstring
  level_of :: log_level

text \<open>
  The regular expression
  \<open>/^(\d{4}-\d{2}-\d{2}T\d{2}:\d{2}:\d{2}\.\d+Z)\s+(.*)$/\<close>: twenty code units of
  fixed shape, one or more digits, \<open>Z\<close>, one or more white space, and a rest without
  line terminator (\<open>.\<close> matches none, and \<open>$\<close> is the end of the string). The
  digits and the white space are each followed by something they cannot match or that
  the next part cannot give back, so the longest runs are the only match.
\<close>

datatype pat = D | C jschar

definition isDigit :: "jschar \<Rightarrow> bool" where
  "isDigit c = (0x30 \<le> c \<and> c \<le> 0x39)"

definition isLineTerminator :: "jschar \<Rightarrow> bool" where
  "isLineTerminator c = (c = 0xA \<or> c = 0xD \<or> c = 0x2028 \<or> c = 0x2029)"

fun matches :: "pat list \<Rightarrow> jsstring \<Rightarrow> bool" where
  "matches [] s = True"
| "matches (p # ps) [] = False"
| "matches (D # ps) (c # s) = (isDigit c \<and> matches ps s)"
| "matches (C x # ps) (c # s) = (c = x \<and> matches ps s)"

definition date_time :: "pat list" where
  "date_time =
     [D, D, D, D, C 0x2D, D, D, C 0x2D, D, D, C 0x54, D, D, C 0x3A, D, D, C 0x3A, D, D,
      C 0x2E]"

definition matchTimestamp :: "jsstring \<Rightarrow> (jsstring \<times> jsstring) option" where
  "matchTimestamp l =
     (let fraction = takeWhile isDigit (drop 20 l);
          afterFraction = dropWhile isDigit (drop 20 l);
          space = takeWhile isWhiteSpace (drop 1 afterFraction);
          rest = dropWhile isWhiteSpace (drop 1 afterFraction)
      in if matches date_time l \<and> fraction \<noteq> [] \<and> take 1 afterFraction = [0x5A]
            \<and> space \<noteq> [] \<and> (\<forall>c \<in> set rest. \<not> isLineTerminator c)
         then Some (take (20 + length fraction + 1) l, rest)
         else None)"

text \<open>
  The records of one frame: its payload decoded as UTF-8, split at line feeds, the
  lines that trim to nothing dropped. The decoder \<open>Buffer.toString('utf8')\<close> is a
  parameter.
\<close>

definition frame_records ::
  "(byte list \<Rightarrow> jsstring) \<Rightarrow> byte \<Rightarrow> byte list \<Rightarrow> unstamped list" where
  "frame_records utf8 streamType payload =
     (let logData = utf8 payload;
          lv = (if streamType = 1 then level_info else level_error);
          lines = filter (\<lambda>l. trim l \<noteq> []) (js_split 0xA logData)
      in map (\<lambda>l. case matchTimestamp l of
                      Some (t, rest) \<Rightarrow> \<lparr>embedded = Some t, text_of = rest, level_of = lv\<rparr>
                    | None \<Rightarrow> \<lparr>embedded = None, text_of = l, level_of = lv\<rparr>)
           lines)"

definition readUInt32BE :: "byte list \<Rightarrow> nat \<Rightarrow> nat" where
  "readUInt32BE buf i =
     unat (buf ! i) * 2 ^ 24 + unat (buf ! (i + 1)) * 2 ^ 16 + unat (buf ! (i + 2)) * 2 ^ 8
       + unat (buf ! (i + 3))"

text \<open>
  The \<open>while\<close> loop of \<open>processLogData\<close>: the records of the complete frames from
  \<open>processed\<close> on, in order, and the offset at which the loop stops.
\<close>

function demux_loop ::
  "(byte list \<Rightarrow> jsstring) \<Rightarrow> byte list \<Rightarrow> nat \<Rightarrow> unstamped list \<times> nat" where
  "demux_loop utf8 buffer processed =
     (if processed < length buffer
      then if length buffer - processed < 8 then ([], processed)
           else
             let streamType = buffer ! processed;
                 size = readUInt32BE buffer (processed + 4)
             in if length buffer - processed < 8 + size then ([], processed)
                else
                  let logData = take size (drop (processed + 8) buffer);
                      (later, stop) = demux_loop utf8 buffer (processed + (8 + size))
                  in (frame_records utf8 streamType logData @ later, stop)
      else ([], processed))"
  by pat_completeness auto
termination
  by (relation "measure (\<lambda>(utf8, buffer, processed). length buffer - processed)") auto

declare demux_loop.simps [simp del]

text \<open>
  The clock: \<open>clock k\<close> is \<open>new Date().toISOString()\<close> at the moment the \<open>k\<close>-th
  record of a call is built. Only a record without embedded timestamp reads it.
\<close>

definition logEntry :: "jsstring \<Rightarrow> unstamped \<Rightarrow> LogEntry" where
  "logEntry now r =
     \<lparr>ts = (case embedded r of Some t \<Rightarrow> t | None \<Rightarrow> now), line = text_of r,
      level = level_of r\<rparr>"

definition stamp :: "(nat \<Rightarrow> jsstring) \<Rightarrow> unstamped list \<Rightarrow> LogEntry list" where
  "stamp clock rs = map (\<lambda>(k, r). logEntry (clock k) r) (zip [0..<length rs] rs)"

text \<open>
  One call of \<open>processLogData\<close>: the buffer after the call and the records sent, in
  order.
\<close>

definition processLogData ::
  "(byte list \<Rightarrow> jsstring) \<Rightarrow> (nat \<Rightarrow> jsstring) \<Rightarrow> byte list \<Rightarrow> byte list
     \<Rightarrow> byte list \<times> LogEntry list" where
  "processLogData utf8 clock buffer chunk =
     (let buffer' = buffer @ chunk;
          (records, processed) = demux_loop utf8 buffer' 0
      in (if processed > 0 then drop processed buffer' else buffer', stamp clock records))"

text \<open>The calls for a sequence of chunks, each with its clock.\<close>

fun feed ::
  "(byte list \<Rightarrow> jsstring) \<Rightarrow> byte list \<Rightarrow> ((nat \<Rightarrow> jsstring) \<times> byte list) list
     \<Rightarrow> byte list \<times> LogEntry list" where
  "feed utf8 buffer [] = (buffer, [])"
| "feed utf8 buffer ((clock, chunk) # rest) =
     (let (buffer', sent) = processLogData utf8 clock buffer chunk;
          (buffer'', sent') = feed utf8 buffer' rest
      in (buffer'', sent @ sent'))"

text \<open>
  The same loop on the bytes not yet processed: the records of the complete frames at
  the front, and the bytes that remain.
\<close>

function frames :: "(byte list \<Rightarrow> jsstring) \<Rightarrow> byte list \<Rightarrow> unstamped list \<times> byte list" where
  "frames utf8 bs =
     (if length bs < 8 then ([], bs)
      else if length bs < 8 + readUInt32BE bs 4 then ([], bs)
      else
        let (later, rest) = frames utf8 (drop (8 + readUInt32BE bs 4) bs)
        in (frame_records utf8 (bs ! 0) (take (readUInt32BE bs 4) (drop 8 bs)) @ later, rest))"
  by pat_completeness auto
termination
  by (relation "measure (\<lambda>(utf8, bs). length bs)") auto

declare frames.simps [simp del]

text \<open>
  Every line that the loop finds in the bytes, taken as one buffer, carries its
  timestamp.
\<close>

definition all_timestamped :: "(byte list \<Rightarrow> jsstring) \<Rightarrow> byte list \<Rightarrow> bool" where
  "all_timestamped utf8 bs =
     list_all (\<lambda>r. embedded r \<noteq> None) (fst (demux_loop utf8 bs 0))"

text \<open>
  The decoding of bytes below 128, on which UTF-8 is ASCII (a byte from 128 on is shown
  as U+FFFD, and none occurs below); a header for a payload shorter than 256 bytes; and
  a clock that reads the same time at every line of a call.
\<close>

definition ascii :: "byte list \<Rightarrow> jsstring" where
  "ascii bs = map (\<lambda>b. if b < 0x80 then ucast b else 0xFFFD) bs"

definition bytes :: "string \<Rightarrow> byte list" where
  "bytes s = map (\<lambda>c. of_nat (of_char c)) s"

definition header :: "byte \<Rightarrow> nat \<Rightarrow> byte list" where
  "header streamType n = [streamType, 0, 0, 0, 0, 0, 0, of_nat n]"

definition clock_at :: "jsstring \<Rightarrow> nat \<Rightarrow> jsstring" where
  "clock_at now k = now"

section \<open>Properties of string literals\<close>

lemma jschar_of_char_inject: "(of_nat (of_char a) :: jschar) = of_nat (of_char b) \<longleftrightarrow> a = b"
proof
  assume e: "(of_nat (of_char a) :: jschar) = of_nat (of_char b)"
  have r: "(of_char c :: nat) < 2 ^ 16" for c
  proof -
    have "(of_char c :: nat) mod 256 < 256" by (rule mod_less_divisor) simp
    then have "(of_char c :: nat) < 256" by (simp only: of_char_mod_256)
    also have "(256::nat) < 2 ^ 16" by simp
    finally show ?thesis .
  qed
  from e have "unat (of_nat (of_char a) :: jschar) = unat (of_nat (of_char b) :: jschar)"
    by simp
  then have "(of_char a :: nat) = of_char b"
    using r [of a] r [of b] by (simp add: unat_of_nat take_bit_nat_eq_self)
  then show "a = b" by simp
qed simp

lemma js_inject [simp]: "js a = js b \<longleftrightarrow> a = b"
proof (induction a arbitrary: b)
  case Nil
  then show ?case by (auto simp: js_def)
next
  case (Cons x a)
  then show ?case by (cases b) (auto simp: js_def jschar_of_char_inject)
qed

lemma js_Nil [simp]: "js [] = []" "js s = [] \<longleftrightarrow> s = []" "[] = js s \<longleftrightarrow> s = []"
  by (auto simp: js_def)

lemma js_append: "js a @ js b = js (a @ b)"
  by (simp add: js_def)

lemma length_js [simp]: "length (js s) = length s"
  by (simp add: js_def)


lemma drop_js: "drop n (js s) = js (drop n s)"
  by (simp add: js_def drop_map)


section \<open>Properties of push connections\<close>

lemma isClosed_close: "isClosed (close c)"
  by (simp add: close_def Let_def)

lemma close_closed: "isClosed c \<Longrightarrow> close c = c"
  by (simp add: close_def)

lemma close_close: "close (close c) = close c"
  by (simp add: close_closed isClosed_close)

lemma close_funpow: "(close ^^ n) (close c) = close c"
  by (induction n) (simp_all add: close_close)

lemma close_open:
  "\<not> isClosed c \<Longrightarrow>
     close c =
       c\<lparr>isClosed := True,
         timer_scheduled := (if heartbeatInterval c \<noteq> None then False else timer_scheduled c),
         clearInterval_calls :=
           (if heartbeatInterval c \<noteq> None then clearInterval_calls c + 1
            else clearInterval_calls c),
         res := (if \<not> destroyed (res c) \<and> \<not> end_throws (res c)
                 then (res c)\<lparr>ended := True\<rparr> else res c)\<rparr>"
  by (cases c) (simp add: close_def Let_def)

lemma new_SSEConnection_Some:
  "new_SSEConnection r cid h = Some c \<Longrightarrow>
     \<not> write_throws r \<and> \<not> isClosed c \<and> heartbeatInterval c = Some h \<and> timer_scheduled c
     \<and> clearInterval_calls c = 0
     \<and> written (res c) = written r @ [WriteHead, RetryLine, FlushHeaders]"
  by (auto simp: new_SSEConnection_def setupConnection_def startHeartbeat_def res_write_def
      split: if_splits)

lemma heartbeatInterval_kept:
  "heartbeatInterval (close c) = heartbeatInterval c"
  "heartbeatInterval (sendData x c) = heartbeatInterval c"
  "heartbeatInterval (sendEvent e d c) = heartbeatInterval c"
  by (simp_all add: close_def sendData_def sendEvent_def Let_def)

text \<open>
  C8. For every connection \<open>c\<close>:
  \<^item> closing is idempotent: any number of further calls of \<open>close\<close> after the first
    leaves the connection as the first call left it, and \<open>close\<close> on a closed
    connection changes nothing;
  \<^item> the first \<open>close\<close> of an open connection that has a heartbeat interval calls
    \<open>clearInterval\<close> once and the interval is no longer scheduled; it ends the response
    unless the response is destroyed or \<open>end\<close> throws; further calls add no
    \<open>clearInterval\<close>;
  \<^item> every connection that the constructor returns is open and has its interval, and
    sending data or events keeps the interval, so the first \<open>close\<close> of a connection
    in use clears it;
  \<^item> after \<open>close\<close> neither the heartbeat callback, nor the event loop firing the
    interval, nor \<open>sendEvent\<close> or \<open>sendData\<close> writes anything: the connection is
    unchanged.
\<close>

theorem close_idempotent_heartbeat_stopped:
  "close (close c) = close c
   \<and> (close ^^ n) (close c) = close c
   \<and> (isClosed c \<longrightarrow> close c = c)
   \<and> isClosed (close c)
   \<and> (\<not> isClosed c \<and> heartbeatInterval c \<noteq> None \<longrightarrow>
        clearInterval_calls (close c) = clearInterval_calls c + 1
        \<and> \<not> timer_scheduled (close c))
   \<and> (\<not> isClosed c \<and> \<not> destroyed (res c) \<and> \<not> end_throws (res c) \<longrightarrow>
        ended (res (close c)))
   \<and> written (res (close c)) = written (res c)
   \<and> clearInterval_calls ((close ^^ n) (close c)) = clearInterval_calls (close c)
   \<and> timer_scheduled ((close ^^ n) (close c)) = timer_scheduled (close c)
   \<and> (new_SSEConnection r cid h = Some c \<longrightarrow>
        \<not> isClosed c \<and> heartbeatInterval c = Some h \<and> timer_scheduled c
        \<and> clearInterval_calls c = 0)
   \<and> heartbeatInterval (sendData x c) = heartbeatInterval c
   \<and> heartbeatInterval (sendEvent e d c) = heartbeatInterval c
   \<and> heartbeat_callback now (close c) = close c
   \<and> heartbeat_fires now (close c) = close c
   \<and> sendEvent e d (close c) = close c
   \<and> sendData x (close c) = close c"
proof -
  have o: "\<not> isClosed c \<and> heartbeatInterval c \<noteq> None \<longrightarrow>
        clearInterval_calls (close c) = clearInterval_calls c + 1
        \<and> \<not> timer_scheduled (close c)"
    by (simp add: close_open)
  have e: "\<not> isClosed c \<and> \<not> destroyed (res c) \<and> \<not> end_throws (res c) \<longrightarrow>
        ended (res (close c))"
    by (simp add: close_open)
  have w: "written (res (close c)) = written (res c)"
    by (cases "isClosed c") (simp_all add: close_closed close_open)
  have n: "new_SSEConnection r cid h = Some c \<longrightarrow>
        \<not> isClosed c \<and> heartbeatInterval c = Some h \<and> timer_scheduled c
        \<and> clearInterval_calls c = 0"
    using new_SSEConnection_Some [of r cid h c] by blast
  have f: "clearInterval_calls ((close ^^ n) (close c)) = clearInterval_calls (close c)"
    "timer_scheduled ((close ^^ n) (close c)) = timer_scheduled (close c)"
    by (simp_all only: close_funpow)
  have h1: "heartbeat_callback now (close c) = close c"
    by (simp add: heartbeat_callback_def isClosed_close)
  have h2: "heartbeat_fires now (close c) = close c"
    by (simp add: heartbeat_fires_def heartbeat_callback_def isClosed_close)
  have s1: "sendEvent e d (close c) = close c"
    by (simp add: sendEvent_def isClosed_close)
  have s2: "sendData x (close c) = close c"
    by (simp add: sendData_def isClosed_close)
  from o e w n f h1 h2 s1 s2 close_close [of c] close_funpow [of n c] close_closed [of c]
    isClosed_close [of c] heartbeatInterval_kept(2) [of x c]
    heartbeatInterval_kept(3) [of e d c]
  show ?thesis by blast
qed

text \<open>
  A connection is constructed, is sent a snapshot, and is closed three times: one
  \<open>clearInterval\<close>, the interval off, the response ended, and no frame after the
  snapshot.
\<close>

theorem close_idempotent_heartbeat_stopped_witness:
  "new_SSEConnection fresh_response ''sse_1'' 1 = Some first_connection
   \<and> \<not> isClosed (sendData status_vpn_up first_connection)
   \<and> heartbeatInterval (sendData status_vpn_up first_connection) \<noteq> None
   \<and> \<not> destroyed (res (sendData status_vpn_up first_connection))
   \<and> \<not> end_throws (res (sendData status_vpn_up first_connection))
   \<and> clearInterval_calls ((close ^^ 2) (close (sendData status_vpn_up first_connection))) = 1
   \<and> \<not> timer_scheduled ((close ^^ 2) (close (sendData status_vpn_up first_connection)))
   \<and> ended (res (close (sendData status_vpn_up first_connection)))
   \<and> written (res (heartbeat_fires (js ''2025-01-01T00:00:15.000Z'')
                       (close (sendData status_vpn_up first_connection))))
       = [WriteHead, RetryLine, FlushHeaders, DataLine (Value status_vpn_up)]"
proof -
  let ?c = "sendData status_vpn_up first_connection"
  have c: "?c = first_connection
                  \<lparr>res := (res first_connection)
                     \<lparr>written := [WriteHead, RetryLine, FlushHeaders,
                                    DataLine (Value status_vpn_up)]\<rparr>\<rparr>"
    by (simp add: sendData_def first_connection_def res_write_def)
  have k: "new_SSEConnection fresh_response ''sse_1'' 1 = Some first_connection"
    by (simp add: new_SSEConnection_def setupConnection_def startHeartbeat_def
        res_write_def fresh_response_def first_connection_def)
  have p: "\<not> isClosed ?c" "heartbeatInterval ?c \<noteq> None" "\<not> destroyed (res ?c)"
    "\<not> end_throws (res ?c)" "clearInterval_calls ?c = 0"
    "written (res ?c) = [WriteHead, RetryLine, FlushHeaders, DataLine (Value status_vpn_up)]"
    by (simp_all add: c) (simp_all add: first_connection_def)
  from close_idempotent_heartbeat_stopped
         [of ?c 2 fresh_response "''sse_1''" 1 status_vpn_up "''ping''"
             "Timestamp (js ''2025-01-01T00:00:15.000Z'')" "js ''2025-01-01T00:00:15.000Z''"]
       p k
  show ?thesis by simp
qed

section \<open>Properties of starting and stopping\<close>

lemma issued_issue: "issued (snd (issue c d)) = issued d @ [c]"
  by (simp add: issue_def split: option.splits)

lemma issued_startContainer:
  "issued (snd (startContainer n d)) =
     (case inspect d n of
        Inl m \<Rightarrow> issued d
      | Inr info \<Rightarrow> if State_Running info then issued d else issued d @ [Start n])"
  by (simp add: startContainer_def issue_def split: sum.splits option.splits)

lemma issued_stopContainer:
  "issued (snd (stopContainer n d)) =
     (case inspect d n of
        Inl m \<Rightarrow> issued d
      | Inr info \<Rightarrow> if State_Running info then issued d @ [Stop n 10] else issued d)"
  by (simp add: stopContainer_def issue_def split: sum.splits option.splits)

text \<open>
  C9. \<open>startContainer\<close> issues a start command exactly when the inspection answers and
  reports the container not running, and then it issues that one command only;
  \<open>stopContainer\<close> issues a stop command, with a grace time of 10 seconds, exactly
  when the inspection reports the container running. Called on a container that is
  already in the target state, either one succeeds and leaves the engine as it was: no
  command is issued.
\<close>

theorem start_stop_effect_idempotent:
  "(inspect d n = Inr info \<longrightarrow> \<not> State_Running info \<longrightarrow>
      issued (snd (startContainer n d)) = issued d @ [Start n])
   \<and> (inspect d n = Inr info \<longrightarrow> State_Running info \<longrightarrow>
      startContainer n d = (Inr (), d))
   \<and> (inspect d n = Inl m \<longrightarrow> issued (snd (startContainer n d)) = issued d)
   \<and> (inspect d n = Inr info \<longrightarrow> State_Running info \<longrightarrow>
      issued (snd (stopContainer n d)) = issued d @ [Stop n 10])
   \<and> (inspect d n = Inr info \<longrightarrow> \<not> State_Running info \<longrightarrow>
      stopContainer n d = (Inr (), d))
   \<and> (inspect d n = Inl m \<longrightarrow> issued (snd (stopContainer n d)) = issued d)"
  by (auto simp: issued_startContainer issued_stopContainer)
    (simp_all add: startContainer_def stopContainer_def)

theorem start_stop_effect_idempotent_witness:
  "issued (snd (startContainer (js ''media-pipeline'') (demo_docker False)))
     = [Start (js ''media-pipeline'')]
   \<and> startContainer (js ''media-pipeline'') (demo_docker True) = (Inr (), demo_docker True)
   \<and> issued (snd (startContainer (js ''gluetun'') (demo_docker True))) = []
   \<and> issued (snd (stopContainer (js ''media-pipeline'') (demo_docker True)))
     = [Stop (js ''media-pipeline'') 10]
   \<and> stopContainer (js ''media-pipeline'') (demo_docker False) = (Inr (), demo_docker False)
   \<and> issued (snd (stopContainer (js ''gluetun'') (demo_docker False))) = []"
  using start_stop_effect_idempotent
          [of "demo_docker False" "js ''media-pipeline''" "demo_info False"
              "js ''no such container''"]
        start_stop_effect_idempotent
          [of "demo_docker True" "js ''media-pipeline''" "demo_info True"
              "js ''no such container''"]
        start_stop_effect_idempotent
          [of "demo_docker True" "js ''gluetun''" "demo_info True" "js ''no such container''"]
        start_stop_effect_idempotent
          [of "demo_docker False" "js ''gluetun''" "demo_info False" "js ''no such container''"]
  by (simp add: demo_docker_def demo_info_def)

section \<open>Properties of the status projection\<close>

subsection \<open>Integer literals are read back by parseInt\<close>

lemma digitsOf_small: "n < 10 \<Longrightarrow> digitsOf n = [digitChar n]"
  by (subst digitsOf.simps) simp

lemma digitsOf_large:
  "\<not> n < 10 \<Longrightarrow> digitsOf n = digitsOf (n div 10) @ [digitChar (n mod 10)]"
  by (subst digitsOf.simps) simp

lemma digit_cases: "d < 10 \<Longrightarrow> d = 0 \<or> d = 1 \<or> d = 2 \<or> d = 3 \<or> d = 4 \<or> d = 5 \<or> d = 6 \<or> d = 7 \<or> d = 8 \<or> d = (9::nat)"
  by arith

lemma digitValue_digit: "d < 10 \<Longrightarrow> digitValue (digitChar d) = Some d"
  using digit_cases [of d] by (auto simp: digitValue_def digitChar_def)

lemma digit_not_special:
  "d < 10 \<Longrightarrow> \<not> isWhiteSpace (digitChar d) \<and> digitChar d \<noteq> 0x2D
     \<and> digitChar d \<noteq> 0x2B \<and> digitChar d \<noteq> 0x3D
     \<and> digitChar d \<noteq> 0x78 \<and> digitChar d \<noteq> 0x58"
  using digit_cases [of d] by (auto simp: isWhiteSpace_def digitChar_def)

lemma digitChar_zero: "d < 10 \<Longrightarrow> digitChar d = 0x30 \<Longrightarrow> d = 0"
  using digit_cases [of d] by (auto simp: digitChar_def)

lemma isDigitOf_digit: "d < 10 \<Longrightarrow> isDigitOf 10 (digitChar d)"
  by (simp add: isDigitOf_def digitValue_digit)

lemma digitsOf_all_digits: "c \<in> set (digitsOf n) \<Longrightarrow> \<exists>d<10. c = digitChar d"
proof (induction n arbitrary: c rule: digitsOf.induct)
  case (1 n)
  show ?case
  proof (cases "n < 10")
    case True
    with 1(2) show ?thesis by (auto simp: digitsOf_small)
  next
    case False
    have m: "n mod 10 < 10" by simp
    from False 1(2) have "c \<in> set (digitsOf (n div 10)) \<or> c = digitChar (n mod 10)"
      by (auto simp: digitsOf_large)
    then show ?thesis
    proof
      assume "c \<in> set (digitsOf (n div 10))"
      with False 1(1) show ?thesis by blast
    next
      assume "c = digitChar (n mod 10)"
      with m show ?thesis by blast
    qed
  qed
qed

lemma digitsValue_append:
  "digitsValue R (xs @ [c]) = digitsValue R xs * R + the (digitValue c)"
  by (simp add: digitsValue_def)

lemma digitsValue_digitsOf: "digitsValue 10 (digitsOf n) = n"
proof (induction n rule: digitsOf.induct)
  case (1 n)
  show ?case
  proof (cases "n < 10")
    case True
    then show ?thesis
      by (simp add: digitsOf_small digitsValue_def digitValue_digit)
  next
    case False
    have "n mod 10 < 10" by simp
    then have "the (digitValue (digitChar (n mod 10))) = n mod 10"
      by (simp only: digitValue_digit option.sel)
    with False 1 show ?thesis
      by (simp add: digitsOf_large digitsValue_append)
  qed
qed

lemma digitsOf_nonempty: "digitsOf n \<noteq> []"
  by (subst digitsOf.simps) simp

lemma digitsOf_hd: "\<exists>d<10. \<exists>r. digitsOf n = digitChar d # r"
  using digitsOf_nonempty [of n] digitsOf_all_digits [of "hd (digitsOf n)" n]
  by (cases "digitsOf n") auto

lemma digitsOf_leading: "digitsOf n = digitChar 0 # r \<Longrightarrow> r = []"
proof (induction n arbitrary: r rule: digitsOf.induct)
  case (1 n)
  show ?case
  proof (cases "n < 10")
    case True
    with 1(2) show ?thesis by (simp add: digitsOf_small)
  next
    case False
    then have nz: "n div 10 \<noteq> 0" by simp
    from False 1(2) have e: "digitsOf (n div 10) @ [digitChar (n mod 10)] = digitChar 0 # r"
      by (simp add: digitsOf_large)
    obtain d r' where d: "digitsOf (n div 10) = d # r'"
      using digitsOf_nonempty [of "n div 10"] by (cases "digitsOf (n div 10)") auto
    with e have "d = digitChar 0" by simp
    with d 1(1) False have "r' = []" by simp
    with d \<open>d = digitChar 0\<close> have "digitsOf (n div 10) = [digitChar 0]" by simp
    then have "digitsValue 10 (digitsOf (n div 10)) = 0"
      by (simp add: digitsValue_def digitValue_digit)
    with nz show ?thesis by (simp add: digitsValue_digitsOf)
  qed
qed

lemma takeWhile_all: "(\<And>x. x \<in> set xs \<Longrightarrow> P x) \<Longrightarrow> takeWhile P xs = xs"
  by (induction xs) auto

lemma digitsOf_takeWhile: "takeWhile (isDigitOf 10) (digitsOf n) = digitsOf n"
  using digitsOf_all_digits isDigitOf_digit by (blast intro: takeWhile_all)

lemma digitsOf_no_prefix:
  "\<not> startsWith (c # x # p) (digitsOf n)" if "x = 0x78 \<or> x = 0x58"
proof
  assume "startsWith (c # x # p) (digitsOf n)"
  then have t: "take (Suc (Suc (length p))) (digitsOf n) = c # x # p"
    by (simp add: startsWith_def)
  obtain d r where dr: "d < 10" "digitsOf n = digitChar d # r"
    using digitsOf_hd [of n] by blast
  with t obtain r' where r: "r = x # r'"
    by (cases r) auto
  have "x \<in> set (digitsOf n)" using dr r by simp
  then obtain e where "e < 10" "x = digitChar e"
    using digitsOf_all_digits by blast
  with that digit_not_special [of e] show False by auto
qed

lemma digitsOf_plain:
  "dropWhile isWhiteSpace (digitsOf n) = digitsOf n"
  "\<not> startsWith (js ''-'') (digitsOf n)"
  "\<not> startsWith (js ''+'') (digitsOf n)"
  "\<not> startsWith (js ''0x'') (digitsOf n)"
  "\<not> startsWith (js ''0X'') (digitsOf n)"
proof -
  obtain d r where dr: "d < 10" "digitsOf n = digitChar d # r"
    using digitsOf_hd [of n] by blast
  show "dropWhile isWhiteSpace (digitsOf n) = digitsOf n"
    using dr digit_not_special [OF dr(1)] by simp
  show "\<not> startsWith (js ''-'') (digitsOf n)" "\<not> startsWith (js ''+'') (digitsOf n)"
    using dr digit_not_special [OF dr(1)] by (simp_all add: startsWith_def js_def)
  show "\<not> startsWith (js ''0x'') (digitsOf n)" "\<not> startsWith (js ''0X'') (digitsOf n)"
    using digitsOf_no_prefix [where n = n] by (simp_all add: js_def)
qed








subsection \<open>Splitting and the environment scan\<close>

lemma js_split_nonempty: "js_split sep s \<noteq> []"
  by (induction s) (auto split: list.splits)

lemma js_split_no_sep: "sep \<notin> set b \<Longrightarrow> js_split sep b = [b]"
  by (induction b) auto

lemma js_split_first: "sep \<notin> set a \<Longrightarrow> js_split sep (a @ sep # b) = a # js_split sep b"
  by (induction a) auto













subsection \<open>The table\<close>

lemma state_getContainerInfo:
  "state (getContainerInfo d n) =
     (case inspect d n of Inl m \<Rightarrow> state_unknown
      | Inr i \<Rightarrow> if State_Running i then state_running else state_stopped)"
  by (simp add: getContainerInfo_def split: sum.splits)










section \<open>Properties of the status stream\<close>

lemma send_if_changed_twice:
  "send_if_changed k s (send_if_changed k s rt) = send_if_changed k s rt"
  by (auto simp: send_if_changed_def split: option.splits)

lemma two_clients_eval:
  "lastStatus two_clients = Some status_vpn_up
   \<and> pushed 1 two_clients = [status_vpn_up]
   \<and> pushed 2 two_clients = [status_vpn_up]"
  by (simp add: two_clients_def stream_open_def createStatusRouter_def pushed_def
      new_SSEConnection_def startHeartbeat_def setupConnection_def sendData_def
      res_write_def fresh_response_def Let_def)

text \<open>
  C4, on the code. With nothing else in between, a second identical recomputation on a
  connection sends nothing. But the last pushed snapshot is one variable of the router,
  shared by all connections. In \<open>missed_update\<close> the second connection has last been
  sent "VPN up", recomputes "VPN down", and is sent nothing, because the first
  connection has already stored "VPN down". In \<open>pushed_twice\<close> the first
  connection recomputes "VPN down" twice in a row and is sent it twice, because the
  second connection has stored "VPN up" in between.
\<close>

theorem lastStatus_shared_between_connections:
  "send_if_changed k s (send_if_changed k s rt) = send_if_changed k s rt
   \<and> pushed 1 missed_update = [status_vpn_up, status_vpn_down]
   \<and> pushed 2 missed_update = [status_vpn_up]
   \<and> pushed 1 pushed_twice = [status_vpn_up, status_vpn_down, status_vpn_down]"
proof -
  have ne: "JSON_stringify status_vpn_down \<noteq> JSON_stringify status_vpn_up"
    "JSON_stringify status_vpn_up \<noteq> JSON_stringify status_vpn_down"
    by (simp_all add: status_vpn_up_def status_vpn_down_def JSON_stringify_def)
  have m: "pushed 1 missed_update = [status_vpn_up, status_vpn_down]
           \<and> pushed 2 missed_update = [status_vpn_up]"
    using ne
    by (simp add: missed_update_def two_clients_def heartbeatInterval_tick_def
        send_if_changed_def stream_open_def createStatusRouter_def pushed_def
        new_SSEConnection_def startHeartbeat_def setupConnection_def sendData_def
        res_write_def fresh_response_def isClosed'_def Let_def)
  have t: "pushed 1 pushed_twice = [status_vpn_up, status_vpn_down, status_vpn_down]"
    using ne
    by (simp add: pushed_twice_def two_clients_def heartbeatInterval_tick_def
        send_if_changed_def stream_open_def createStatusRouter_def pushed_def
        new_SSEConnection_def startHeartbeat_def setupConnection_def sendData_def
        res_write_def fresh_response_def isClosed'_def Let_def)
  from m t send_if_changed_twice show ?thesis by simp
qed

section \<open>Properties of the link store\<close>

subsection \<open>Lines\<close>

lemma js_newline: "js ''\<newline>'' = [0xA]"
  by (simp add: js_def)

lemma js_split_append:
  "js_split sep (a @ sep # b) = js_split sep a @ js_split sep b"
proof (induction a)
  case Nil
  show ?case by simp
next
  case (Cons c a)
  obtain x xs where x: "js_split sep a = x # xs"
    using js_split_nonempty [of sep a] by (cases "js_split sep a") auto
  with Cons show ?case by simp
qed

lemma js_split_lines: "x \<in> set (js_split sep s) \<Longrightarrow> sep \<notin> set x"
proof (induction s arbitrary: x)
  case Nil
  then show ?case by simp
next
  case (Cons c s)
  obtain y ys where y: "js_split sep s = y # ys"
    using js_split_nonempty [of sep s] by (cases "js_split sep s") auto
  show ?case
  proof (cases "c = sep")
    case True
    with Cons show ?thesis by auto
  next
    case False
    with Cons.prems y have "x = c # y \<or> x \<in> set ys" by simp
    then show ?thesis
    proof
      assume "x = c # y"
      moreover have "sep \<notin> set y" using Cons.IH [of y] y by simp
      ultimately show ?thesis using False by auto
    next
      assume "x \<in> set ys"
      then show ?thesis using Cons.IH [of x] y by simp
    qed
  qed
qed

lemma trim_Nil: "trim [] = []"
  by (simp add: trim_def)

lemma set_trim: "set (trim s) \<subseteq> set s"
proof -
  have "set (dropWhile P xs) \<subseteq> set xs" for P and xs :: jsstring
    by (metis set_dropWhileD subsetI)
  then have "set (dropWhile isWhiteSpace (rev (dropWhile isWhiteSpace s))) \<subseteq> set s"
    by (metis (no_types) set_rev subset_trans)
  then show ?thesis by (simp add: trim_def)
qed

lemma rev_dropWhile_rev_prefix:
  "\<exists>r. ys = rev (dropWhile P (rev ys)) @ r"
proof -
  have "rev ys = takeWhile P (rev ys) @ dropWhile P (rev ys)" by simp
  then have "rev (rev ys) = rev (takeWhile P (rev ys) @ dropWhile P (rev ys))"
    by (rule arg_cong)
  then have "ys = rev (dropWhile P (rev ys)) @ rev (takeWhile P (rev ys))"
    by (simp only: rev_rev_ident rev_append)
  then show ?thesis ..
qed

lemma trim_trim: "trim (trim s) = trim s"
proof -
  define ys where "ys = dropWhile isWhiteSpace s"
  define zs where "zs = rev (dropWhile isWhiteSpace (rev ys))"
  have t: "trim s = zs" by (simp add: trim_def ys_def zs_def)
  have hy: "ys = [] \<or> \<not> isWhiteSpace (hd ys)"
    unfolding ys_def by (metis hd_dropWhile)
  obtain r where r: "ys = zs @ r"
    using rev_dropWhile_rev_prefix [of ys isWhiteSpace] zs_def by auto
  have hz: "zs = [] \<or> \<not> isWhiteSpace (hd zs)"
    using hy r by (cases zs) auto
  then have d1: "dropWhile isWhiteSpace zs = zs"
    by (cases zs) auto
  have "rev zs = dropWhile isWhiteSpace (rev ys)" by (simp add: zs_def)
  then have d2: "dropWhile isWhiteSpace (rev zs) = rev zs"
    by (simp add: dropWhile_idem)
  have "trim zs = zs"
    by (simp add: trim_def d1 d2)
  with t show ?thesis by simp
qed

lemma stored_urls_Nil: "stored_urls [] = []"
  by (simp add: stored_urls_def trim_Nil)

lemma stored_urls_append:
  "stored_urls (a @ 0xA # b) = stored_urls a @ stored_urls b"
  by (simp add: stored_urls_def js_split_append)

lemma stored_urls_one_line: "one_line u \<Longrightarrow> stored_urls u = [u]"
  by (simp add: stored_urls_def one_line_def js_split_no_sep)

lemma one_line_stored: "u \<in> set (stored_urls c) \<Longrightarrow> one_line u"
proof -
  assume "u \<in> set (stored_urls c)"
  then obtain l where l: "l \<in> set (js_split 0xA c)" "u = trim l" "u \<noteq> []"
    by (auto simp: stored_urls_def)
  have "0xA \<notin> set l" using l(1) by (rule js_split_lines)
  then have "0xA \<notin> set u" using set_trim [of l] l(2) by auto
  moreover have "trim u = u" using l(2) trim_trim by simp
  ultimately show ?thesis using l(3) by (simp add: one_line_def)
qed

lemma stored_urls_join:
  "\<forall>u \<in> set us. one_line u \<Longrightarrow> us \<noteq> [] \<Longrightarrow> stored_urls (js_join [0xA] us @ [0xA]) = us"
proof (induction "[0xA] :: jsstring" us rule: js_join.induct)
  case 1
  then show ?case by simp
next
  case (2 x)
  have "stored_urls (x @ [0xA]) = stored_urls x @ stored_urls []"
    by (rule stored_urls_append)
  with 2 show ?case by (simp add: stored_urls_one_line stored_urls_Nil)
next
  case (3 x y ys)
  have "stored_urls (x @ 0xA # (js_join [0xA] (y # ys) @ [0xA]))
          = stored_urls x @ stored_urls (js_join [0xA] (y # ys) @ [0xA])"
    by (rule stored_urls_append)
  with 3 show ?case by (simp add: stored_urls_one_line)
qed

subsection \<open>Text that survives UTF-8\<close>

lemma length_toWellFormed: "length (toWellFormed s) = length s"
  by (induction s rule: toWellFormed.induct) auto

lemma toWellFormed_sep:
  "\<not> isHigh w \<Longrightarrow> \<not> isLow w \<Longrightarrow>
     toWellFormed (a @ w # b) = toWellFormed a @ w # toWellFormed b"
proof (induction a rule: toWellFormed.induct)
  case 1
  then show ?case by (cases b) auto
next
  case (2 c)
  have "toWellFormed (w # b) = w # toWellFormed b"
    using 2 by (cases b) auto
  with 2 show ?case by simp
next
  case (3 c d cs)
  then show ?case by simp
qed

lemma well_formed_sep:
  assumes "\<not> isHigh w" "\<not> isLow w"
  shows "well_formed (a @ w # b) \<longleftrightarrow> well_formed a \<and> well_formed b"
proof -
  have "toWellFormed a @ w # toWellFormed b = a @ w # b
          \<longleftrightarrow> toWellFormed a = a \<and> toWellFormed b = b"
    using length_toWellFormed [of a] by auto
  then show ?thesis
    by (simp add: well_formed_def toWellFormed_sep [OF assms])
qed

lemma well_formed_Nil: "well_formed []"
  by (simp add: well_formed_def)

lemma newline_plain: "\<not> isHigh 0xA" "\<not> isLow 0xA"
  by (simp_all add: isHigh_def isLow_def)

lemma whitespace_plain: "isWhiteSpace w \<Longrightarrow> \<not> isHigh w \<and> \<not> isLow w"
proof -
  assume "isWhiteSpace w"
  moreover have "w \<le> 0x3000" if "w \<le> 0x200A"
    using that by (rule order_trans) simp
  ultimately consider "w \<le> 0x3000" | "w = 0xFEFF"
    by (auto simp: isWhiteSpace_def)
  then show ?thesis
  proof cases
    case 1
    have "\<not> (0xD800 :: jschar) \<le> 0x3000" "\<not> (0xDC00 :: jschar) \<le> 0x3000" by simp_all
    with 1 show ?thesis
      unfolding isHigh_def isLow_def by (meson order_trans)
  next
    case 2
    then show ?thesis by (simp add: isHigh_def isLow_def)
  qed
qed

lemma well_formed_split:
  "\<not> isHigh sep \<Longrightarrow> \<not> isLow sep \<Longrightarrow> well_formed c \<Longrightarrow> x \<in> set (js_split sep c)
     \<Longrightarrow> well_formed x"
proof (induction "length c" arbitrary: c rule: less_induct)
  case less
  show ?case
  proof (cases "sep \<in> set c")
    case False
    with less.prems show ?thesis by (simp add: js_split_no_sep)
  next
    case True
    then obtain a b where ab: "c = a @ sep # b" "sep \<notin> set a"
      by (meson split_list_first)
    then have s: "js_split sep c = a # js_split sep b"
      by (simp add: js_split_first)
    from less.prems(3) ab(1) have w: "well_formed a" "well_formed b"
      using well_formed_sep [OF less.prems(1,2), of a b] by simp_all
    from less.prems(4) s have "x = a \<or> x \<in> set (js_split sep b)" by simp
    then show ?thesis
    proof
      assume "x = a" with w show ?thesis by simp
    next
      assume "x \<in> set (js_split sep b)"
      moreover have "length b < length c" using ab(1) by simp
      ultimately show ?thesis using less.hyps less.prems(1,2) w(2) by blast
    qed
  qed
qed

lemma well_formed_dropWhile:
  "well_formed s \<Longrightarrow> well_formed (dropWhile isWhiteSpace s)"
proof (induction s)
  case Nil
  then show ?case by simp
next
  case (Cons c s)
  show ?case
  proof (cases "isWhiteSpace c")
    case True
    then have "well_formed ([] @ c # s) \<longleftrightarrow> well_formed [] \<and> well_formed s"
      using whitespace_plain [of c] by (intro well_formed_sep) simp_all
    with Cons True show ?thesis by simp
  next
    case False
    with Cons.prems show ?thesis by simp
  qed
qed

lemma well_formed_dropWhile_end:
  "well_formed s \<Longrightarrow> well_formed (rev (dropWhile isWhiteSpace (rev s)))"
proof (induction s rule: rev_induct)
  case Nil
  then show ?case by simp
next
  case (snoc c s)
  show ?case
  proof (cases "isWhiteSpace c")
    case True
    then have "well_formed (s @ c # []) \<longleftrightarrow> well_formed s \<and> well_formed []"
      using whitespace_plain [of c] by (intro well_formed_sep) simp_all
    with snoc True show ?thesis by simp
  next
    case False
    with snoc.prems show ?thesis by simp
  qed
qed

lemma well_formed_trim: "well_formed s \<Longrightarrow> well_formed (trim s)"
  unfolding trim_def by (intro well_formed_dropWhile_end well_formed_dropWhile)

lemma well_formed_stored:
  "well_formed c \<Longrightarrow> u \<in> set (stored_urls c) \<Longrightarrow> well_formed u"
  using well_formed_split [OF newline_plain, of c] well_formed_trim
  by (auto simp: stored_urls_def)

lemma well_formed_join:
  "\<forall>u \<in> set us. well_formed u \<Longrightarrow> well_formed (js_join [0xA] us @ [0xA])"
proof (induction "[0xA] :: jsstring" us rule: js_join.induct)
  case 1
  show ?case
    using well_formed_sep [OF newline_plain, of "[]" "[]"] by (simp add: well_formed_Nil)
next
  case (2 x)
  then show ?case
    using well_formed_sep [OF newline_plain, of x "[]"] by (simp add: well_formed_Nil)
next
  case (3 x y ys)
  then show ?case
    using well_formed_sep [OF newline_plain, of x "js_join [0xA] (y # ys) @ [0xA]"] by simp
qed

lemma js_plain: "c \<in> set (js s) \<Longrightarrow> \<not> isHigh c \<and> \<not> isLow c"
proof -
  assume "c \<in> set (js s)"
  then obtain x where c: "c = of_nat (of_char x)" by (auto simp: js_def)
  have "(of_char x :: nat) mod 256 < 256" by (rule mod_less_divisor) simp
  then have x: "(of_char x :: nat) < 256" by (simp only: of_char_mod_256)
  also have "(256 :: nat) < 2 ^ 16" by simp
  finally have "(of_char x :: nat) mod 2 ^ 16 = of_char x" by (rule mod_less)
  then have "unat c = of_char x"
    unfolding c by (simp add: unat_of_nat)
  with x have "unat c < 256" by simp
  then have "c < 256" by (simp add: word_less_nat_alt)
  then show ?thesis
    unfolding isHigh_def isLow_def by (auto simp: not_le intro: less_trans)
qed

lemma well_formed_plain: "\<forall>c \<in> set s. \<not> isHigh c \<and> \<not> isLow c \<Longrightarrow> well_formed s"
  unfolding well_formed_def by (induction s rule: toWellFormed.induct) auto

lemma well_formed_js: "well_formed (js s)"
  using js_plain by (intro well_formed_plain) blast

subsection \<open>The operations, case by case\<close>

lemma find_url:
  "find (\<lambda>link. url link = u) (map (\<lambda>v. \<lparr>link_id = g v, url = v, addedAt = m\<rparr>) us)
     = (if u \<in> set us then Some \<lparr>link_id = g u, url = u, addedAt = m\<rparr> else None)"
  by (induction us) auto

lemma find_link_id:
  "(find (\<lambda>link. link_id link = i) (map (\<lambda>v. \<lparr>link_id = g v, url = v, addedAt = m\<rparr>) us) = None)
     = (i \<notin> g ` set us)"
  by (induction us) auto

lemma filter_link_id:
  "map url (filter (\<lambda>link. link_id link \<noteq> i)
             (map (\<lambda>v. \<lparr>link_id = g v, url = v, addedAt = m\<rparr>) us))
     = filter (\<lambda>v. g v \<noteq> i) us"
  by (induction us) auto

lemma readLinks_eq:
  "readLinks H f =
     (if content f = Inl EIO then Inl (Error (js ''Failed to read links file''))
      else Inr (map (\<lambda>u. \<lparr>link_id = generateId H u, url = u, addedAt = mtime f\<rparr>) (urls_of f)))"
  by (simp add: readLinks_def urls_of_def split: sum.splits fs_error.splits)

lemma dir_exists_same: "dir_exists f \<Longrightarrow> f\<lparr>dir_exists := True\<rparr> = f"
  by (cases f) simp

lemma ensureDirectoryExists_eq:
  "ensureDirectoryExists f =
     (if \<not> dir_exists f \<and> mkdir_throws f \<noteq> None
      then Inl (Error (the (mkdir_throws f)))
      else Inr (f\<lparr>dir_exists := True\<rparr>))"
  by (auto simp: ensureDirectoryExists_def dir_exists_same split: option.splits)

lemma addLink_eq:
  "addLink H now u f =
     (if \<not> dir_exists f \<and> mkdir_throws f \<noteq> None
      then (Inl (Error (the (mkdir_throws f))), f)
      else if content f = Inl EIO
      then (Inl (Error (js ''Failed to read links file'')), f\<lparr>dir_exists := True\<rparr>)
      else if u \<in> set (urls_of f)
      then (Inr (generateId H u, False), f\<lparr>dir_exists := True\<rparr>)
      else if write_fails f
      then (Inl (Error (js ''Failed to add link to file'')),
            f\<lparr>dir_exists := True, writes := writes f + 1\<rparr>)
      else (Inr (generateId H u, True),
            f\<lparr>dir_exists := True,
              content := Inr (toWellFormed
                               (current_text f @ separator (current_text f) @ u @ [0xA])),
              mtime := now, writes := writes f + 1\<rparr>))"
proof -
  let ?g = "f\<lparr>dir_exists := True\<rparr>"
  have g: "content ?g = content f" "urls_of ?g = urls_of f" "write_fails ?g = write_fails f"
    "current_text ?g = current_text f" "writes ?g = writes f" "mtime ?g = mtime f"
    by (simp_all add: urls_of_def current_text_def)
  show ?thesis
  proof (cases "\<not> dir_exists f \<and> mkdir_throws f \<noteq> None")
    case True
    then show ?thesis by (simp add: addLink_def ensureDirectoryExists_eq)
  next
    case ok: False
    then have e: "ensureDirectoryExists f = Inr ?g"
      by (auto simp: ensureDirectoryExists_eq)
    show ?thesis
    proof (cases "content f = Inl EIO")
      case True
      with ok show ?thesis
        by (auto simp: addLink_def e readLinks_eq Let_def)
    next
      case rd: False
      show ?thesis
      proof (cases "u \<in> set (urls_of f)")
        case True
        with ok rd show ?thesis
          by (auto simp: addLink_def e readLinks_eq g find_url Let_def)
      next
        case False
        from rd consider (nofile) "content f = Inl ENOENT" | (has_file) c where "content f = Inr c"
          by (cases "content f") (auto intro: fs_error.exhaust)
        then show ?thesis
        proof cases
          case nofile
          with ok False show ?thesis
            by (auto simp: addLink_def e readLinks_eq g find_url
                write_and_rename_def js_newline current_text_def Let_def)
        next
          case has_file
          with ok False show ?thesis
            by (auto simp: addLink_def e readLinks_eq g find_url
                write_and_rename_def js_newline current_text_def Let_def)
        qed
      qed
    qed
  qed
qed

lemma removeLink_eq:
  "removeLink H now i f =
     (if content f = Inl EIO then (Inl (Error (js ''Failed to read links file'')), f)
      else if i \<notin> generateId H ` set (urls_of f) then (Inr False, f)
      else if write_fails f
      then (Inl (Error (js ''Failed to remove link from file'')), f\<lparr>writes := writes f + 1\<rparr>)
      else (Inr True,
            f\<lparr>content := Inr (toWellFormed
                              (lines_text (filter (\<lambda>u. generateId H u \<noteq> i) (urls_of f)))),
              mtime := now, writes := writes f + 1\<rparr>))"
proof (cases "content f = Inl EIO")
  case True
  then show ?thesis by (simp add: removeLink_def readLinks_eq)
next
  case rd: False
  show ?thesis
  proof (cases "i \<notin> generateId H ` set (urls_of f)")
    case True
    then have "find (\<lambda>link. link_id link = i)
                 (map (\<lambda>u. \<lparr>link_id = generateId H u, url = u, addedAt = mtime f\<rparr>) (urls_of f))
               = None"
      by (simp add: find_link_id)
    with rd True show ?thesis by (simp add: removeLink_def readLinks_eq)
  next
    case False
    then have "find (\<lambda>link. link_id link = i)
                 (map (\<lambda>u. \<lparr>link_id = generateId H u, url = u, addedAt = mtime f\<rparr>) (urls_of f))
               \<noteq> None"
      using find_link_id [of i "generateId H" "mtime f" "urls_of f"] by blast
    then obtain l where "find (\<lambda>link. link_id link = i)
                 (map (\<lambda>u. \<lparr>link_id = generateId H u, url = u, addedAt = mtime f\<rparr>) (urls_of f))
               = Some l"
      by blast
    with rd False show ?thesis
      by (simp add: removeLink_def readLinks_eq Let_def filter_link_id write_and_rename_def
          lines_text_def)
  qed
qed

lemma urls_of_lines_text:
  "\<forall>u \<in> set us. one_line u \<Longrightarrow> stored_urls (lines_text us) = us"
  by (cases "us = []") (simp_all add: lines_text_def js_newline stored_urls_Nil stored_urls_join)

lemma one_line_urls_of: "u \<in> set (urls_of f) \<Longrightarrow> one_line u"
  by (auto simp: urls_of_def one_line_stored split: sum.splits)

lemma one_line_folder: "one_line folder_a" "one_line folder_b"
  by (simp_all add: one_line_def folder_a_def folder_b_def js_def trim_def isWhiteSpace_def)

subsection \<open>What the operations leave in the file\<close>

lemma well_formed_append: "well_formed a \<Longrightarrow> well_formed b \<Longrightarrow> well_formed (a @ b)"
proof (induction a rule: toWellFormed.induct)
  case 1
  then show ?case by simp
next
  case (2 c)
  then have c: "\<not> isHigh c" "\<not> isLow c"
    by (auto simp: well_formed_def isHigh_def isLow_def split: if_splits)
  then have "well_formed ([] @ c # b) \<longleftrightarrow> well_formed [] \<and> well_formed b"
    by (rule well_formed_sep)
  with 2 show ?case by (simp add: well_formed_Nil)
next
  case (3 c d cs)
  have f: "\<not> isHigh 0xFFFD" "\<not> isLow 0xFFFD"
    by (simp_all add: isHigh_def isLow_def)
  show ?case
  proof (cases "isHigh c \<and> isLow d")
    case True
    with 3 show ?thesis by (simp add: well_formed_def)
  next
    case False
    show ?thesis
    proof (cases "isHigh c \<or> isLow c")
      case True
      with False 3(4) have "c = 0xFFFD" by (auto simp: well_formed_def)
      with True f show ?thesis by simp
    next
      case plain: False
      with False 3 show ?thesis by (simp add: well_formed_def)
    qed
  qed
qed

lemma well_formed_appended:
  assumes "well_formed c" "well_formed u"
  shows "well_formed (c @ separator c @ u @ [0xA])"
proof -
  have n: "well_formed [0xA]"
    using well_formed_sep [OF newline_plain, of "[]" "[]"] by (simp add: well_formed_Nil)
  then have "well_formed (separator c)"
    by (simp add: separator_def js_newline well_formed_Nil)
  with assms n show ?thesis by (intro well_formed_append)
qed

lemma well_formed_lines_text:
  "\<forall>u \<in> set us. well_formed u \<Longrightarrow> well_formed (lines_text us)"
  by (simp add: lines_text_def js_newline well_formed_join well_formed_Nil)

lemma well_formed_urls_of:
  "well_formed (current_text f) \<Longrightarrow> u \<in> set (urls_of f) \<Longrightarrow> well_formed u"
  by (auto simp: urls_of_def current_text_def well_formed_stored split: sum.splits)



lemma removeLink_new_urls:
  assumes "well_formed (current_text f)"
  shows "toWellFormed (lines_text (filter P (urls_of f))) = lines_text (filter P (urls_of f))"
    and "stored_urls (lines_text (filter P (urls_of f))) = filter P (urls_of f)"
proof -
  have "\<forall>u \<in> set (filter P (urls_of f)). well_formed u"
    using well_formed_urls_of [OF assms] by auto
  then show "toWellFormed (lines_text (filter P (urls_of f))) = lines_text (filter P (urls_of f))"
    using well_formed_lines_text by (simp add: well_formed_def)
  have "\<forall>u \<in> set (filter P (urls_of f)). one_line u"
    using one_line_urls_of by auto
  then show "stored_urls (lines_text (filter P (urls_of f))) = filter P (urls_of f)"
    by (rule urls_of_lines_text)
qed

lemma readLinks_Inr:
  "readLinks H f = Inr links \<Longrightarrow>
     content f \<noteq> Inl EIO \<and> map url links = urls_of f
     \<and> map link_id links = map (generateId H) (urls_of f)"
  by (auto simp: readLinks_eq comp_def split: if_splits)

lemma urls_of_store_of: "\<forall>u \<in> set us. one_line u \<Longrightarrow> urls_of (store_of us) = us"
  by (simp add: urls_of_def store_of_def urls_of_lines_text)

lemma current_text_store_of: "current_text (store_of us) = lines_text us"
  by (simp add: current_text_def store_of_def)

lemma well_formed_folder: "well_formed folder_a" "well_formed folder_b"
  by (simp_all add: folder_a_def folder_b_def well_formed_js)

lemma toy_hash_inject: "toy_hash u = toy_hash v \<longleftrightarrow> u = v"
  by (simp add: toy_hash_def)

lemma folder_a_b: "folder_a \<noteq> folder_b"
  by (simp add: folder_a_def folder_b_def)

subsection \<open>Removing a link\<close>

lemma readLinks_ids:
  assumes "readLinks H f = Inr links"
  shows "link_id ` set links = generateId H ` set (urls_of f)"
proof -
  have "map link_id links = map (generateId H) (urls_of f)"
    using readLinks_Inr [OF assms] by simp
  then have "set (map link_id links) = set (map (generateId H) (urls_of f))"
    by (rule arg_cong)
  then show ?thesis by (simp only: set_map)
qed

lemma urls_of_written:
  "urls_of (f\<lparr>content := Inr t, mtime := m, writes := n\<rparr>) = stored_urls t"
  by (simp add: urls_of_def)

text \<open>
  C7. When \<open>readLinks\<close> succeeds and no stored url hashes to \<open>i\<close>, \<open>removeLink\<close>
  returns \<open>false\<close> and the file system is exactly as before: same text, no
  \<open>writeFile\<close>. When some stored url hashes to \<open>i\<close> and writing does not fail, it
  returns \<open>true\<close> after one write, and the file holds the urls whose hash is not
  \<open>i\<close>, in their order, one per line; reading it gives exactly those urls. (The text
  of the file is well formed, as every text read as UTF-8 is.)
\<close>

theorem removeLink_unknown_id_untouched:
  "(readLinks H f = Inr links \<and> i \<notin> link_id ` set links
      \<longrightarrow> removeLink H now i f = (Inr False, f))
   \<and> (readLinks H f = Inr links \<and> i \<in> link_id ` set links \<and> \<not> write_fails f
        \<and> well_formed (current_text f)
      \<longrightarrow> fst (removeLink H now i f) = Inr True
        \<and> content (snd (removeLink H now i f))
            = Inr (lines_text (map url (filter (\<lambda>link. link_id link \<noteq> i) links)))
        \<and> urls_of (snd (removeLink H now i f))
            = map url (filter (\<lambda>link. link_id link \<noteq> i) links)
        \<and> writes (snd (removeLink H now i f)) = writes f + 1)"
proof (intro conjI impI)
  assume a: "readLinks H f = Inr links \<and> i \<notin> link_id ` set links"
  then have "content f \<noteq> Inl EIO" "i \<notin> generateId H ` set (urls_of f)"
    using readLinks_Inr [of H f links] readLinks_ids [of H f links] by auto
  then show "removeLink H now i f = (Inr False, f)"
    by (simp add: removeLink_eq)
next
  assume a: "readLinks H f = Inr links \<and> i \<in> link_id ` set links \<and> \<not> write_fails f
        \<and> well_formed (current_text f)"
  then have l: "links = map (\<lambda>u. \<lparr>link_id = generateId H u, url = u, addedAt = mtime f\<rparr>)
                          (urls_of f)"
    and rd: "content f \<noteq> Inl EIO"
    by (auto simp: readLinks_eq split: if_splits)
  have m: "map url (filter (\<lambda>link. link_id link \<noteq> i) links)
             = filter (\<lambda>u. generateId H u \<noteq> i) (urls_of f)"
    unfolding l by (rule filter_link_id)
  have i: "\<not> i \<notin> generateId H ` set (urls_of f)"
    using readLinks_ids [of H f links] a by auto
  have w: "well_formed (current_text f)" using a by simp
  have r: "removeLink H now i f =
             (Inr True,
              f\<lparr>content := Inr (lines_text (filter (\<lambda>u. generateId H u \<noteq> i) (urls_of f))),
                mtime := now, writes := writes f + 1\<rparr>)"
    using rd i a by (simp add: removeLink_eq removeLink_new_urls(1) [OF w])
  show "fst (removeLink H now i f) = Inr True" by (simp add: r)
  show "content (snd (removeLink H now i f))
          = Inr (lines_text (map url (filter (\<lambda>link. link_id link \<noteq> i) links)))"
    by (simp add: r m)
  show "urls_of (snd (removeLink H now i f))
          = map url (filter (\<lambda>link. link_id link \<noteq> i) links)"
    by (simp only: r snd_conv m urls_of_written removeLink_new_urls(2) [OF w])
  show "writes (snd (removeLink H now i f)) = writes f + 1" by (simp add: r)
qed

lemma store_ab:
  "readLinks toy_hash (store_of [folder_a, folder_b])
     = Inr [\<lparr>link_id = toy_hash folder_a, url = folder_a,
              addedAt = js ''2025-01-01T00:00:00.000Z''\<rparr>,
            \<lparr>link_id = toy_hash folder_b, url = folder_b,
              addedAt = js ''2025-01-01T00:00:00.000Z''\<rparr>]"
proof -
  have "urls_of (store_of [folder_a, folder_b]) = [folder_a, folder_b]"
    by (rule urls_of_store_of) (simp add: one_line_folder)
  then show ?thesis
    by (simp add: readLinks_eq generateId_def) (simp add: store_of_def)
qed

text \<open>
  A store with two urls: an id that is the hash of neither leaves it as it is; the id
  of the first leaves the second.
\<close>

theorem removeLink_unknown_id_untouched_witness:
  "removeLink toy_hash (js ''2025-01-02T00:00:00.000Z'') (js ''0123'')
       (store_of [folder_a, folder_b])
     = (Inr False, store_of [folder_a, folder_b])
   \<and> fst (removeLink toy_hash (js ''2025-01-02T00:00:00.000Z'') (toy_hash folder_a)
            (store_of [folder_a, folder_b])) = Inr True
   \<and> content (snd (removeLink toy_hash (js ''2025-01-02T00:00:00.000Z'') (toy_hash folder_a)
                     (store_of [folder_a, folder_b])))
       = Inr (lines_text [folder_b])
   \<and> urls_of (snd (removeLink toy_hash (js ''2025-01-02T00:00:00.000Z'') (toy_hash folder_a)
                     (store_of [folder_a, folder_b])))
       = [folder_b]"
proof -
  let ?f = "store_of [folder_a, folder_b]"
  let ?links = "[\<lparr>link_id = toy_hash folder_a, url = folder_a,
                   addedAt = js ''2025-01-01T00:00:00.000Z''\<rparr>,
                 \<lparr>link_id = toy_hash folder_b, url = folder_b,
                   addedAt = js ''2025-01-01T00:00:00.000Z''\<rparr>]"
  have n: "js ''0123'' \<notin> link_id ` set ?links"
    by (simp add: toy_hash_def folder_a_def folder_b_def js_append)
  have y: "toy_hash folder_a \<in> link_id ` set ?links" by simp
  have w: "\<not> write_fails ?f" by (simp add: store_of_def)
  have t: "well_formed (current_text ?f)"
    unfolding current_text_store_of
    by (rule well_formed_lines_text) (simp add: well_formed_folder)
  have k: "map url (filter (\<lambda>link. link_id link \<noteq> toy_hash folder_a) ?links) = [folder_b]"
    using folder_a_b by (simp add: toy_hash_inject)
  from removeLink_unknown_id_untouched
         [of toy_hash ?f ?links "js ''0123''" "js ''2025-01-02T00:00:00.000Z''"]
       store_ab n
  have a: "removeLink toy_hash (js ''2025-01-02T00:00:00.000Z'') (js ''0123'') ?f
             = (Inr False, ?f)"
    by blast
  from removeLink_unknown_id_untouched
         [of toy_hash ?f ?links "toy_hash folder_a" "js ''2025-01-02T00:00:00.000Z''"]
       store_ab y w t
  have b: "fst (removeLink toy_hash (js ''2025-01-02T00:00:00.000Z'') (toy_hash folder_a) ?f)
             = Inr True
   \<and> content (snd (removeLink toy_hash (js ''2025-01-02T00:00:00.000Z'') (toy_hash folder_a)
                     ?f))
       = Inr (lines_text (map url (filter (\<lambda>link. link_id link \<noteq> toy_hash folder_a) ?links)))
   \<and> urls_of (snd (removeLink toy_hash (js ''2025-01-02T00:00:00.000Z'') (toy_hash folder_a)
                     ?f))
       = map url (filter (\<lambda>link. link_id link \<noteq> toy_hash folder_a) ?links)"
    by blast
  from a b show ?thesis by (simp only: k simp_thms)
qed

text \<open>
  C10. A successful \<open>removeLink\<close> of \<open>i\<close> leaves no stored url that hashes to
  \<open>i\<close>, however many lines held one before: no link that \<open>readLinks\<close> returns
  afterwards has the id \<open>i\<close>, and a second \<open>removeLink\<close> of \<open>i\<close> returns
  \<open>false\<close> and changes nothing. (The text of the file is well formed, as every text
  read as UTF-8 is.)
\<close>

theorem removeLink_removes_every_match:
  "removeLink H now i f = (Inr True, f') \<and> well_formed (current_text f)
     \<longrightarrow> i \<notin> generateId H ` set (urls_of f')
       \<and> (readLinks H f' = Inr links' \<longrightarrow> i \<notin> link_id ` set links')
       \<and> urls_of f' = filter (\<lambda>u. generateId H u \<noteq> i) (urls_of f)
       \<and> removeLink H now' i f' = (Inr False, f')"
proof (intro impI)
  assume a: "removeLink H now i f = (Inr True, f') \<and> well_formed (current_text f)"
  then have w: "well_formed (current_text f)" by simp
  from a have f': "f' = f\<lparr>content := Inr (lines_text (filter (\<lambda>u. generateId H u \<noteq> i)
                                                       (urls_of f))),
                          mtime := now, writes := writes f + 1\<rparr>"
    by (auto simp: removeLink_eq removeLink_new_urls(1) [OF w] split: if_splits)
  then have u: "urls_of f' = filter (\<lambda>u. generateId H u \<noteq> i) (urls_of f)"
    by (simp only: urls_of_written removeLink_new_urls(2) [OF w])
  then have n: "i \<notin> generateId H ` set (urls_of f')" by auto
  have c: "content f' \<noteq> Inl EIO" by (simp add: f')
  have r: "readLinks H f' = Inr links' \<longrightarrow> i \<notin> link_id ` set links'"
  proof
    assume "readLinks H f' = Inr links'"
    then have "link_id ` set links' = generateId H ` set (urls_of f')"
      by (rule readLinks_ids)
    with n show "i \<notin> link_id ` set links'" by simp
  qed
  from n c have "removeLink H now' i f' = (Inr False, f')"
    by (simp add: removeLink_eq)
  with n r u show "i \<notin> generateId H ` set (urls_of f')
       \<and> (readLinks H f' = Inr links' \<longrightarrow> i \<notin> link_id ` set links')
       \<and> urls_of f' = filter (\<lambda>u. generateId H u \<noteq> i) (urls_of f)
       \<and> removeLink H now' i f' = (Inr False, f')"
    by simp
qed

text \<open>
  A file that holds the first url on two lines: one removal leaves only the second url,
  and the next removal of the same id finds nothing.
\<close>

theorem removeLink_removes_every_match_witness:
  "fst (removeLink toy_hash (js ''2025-01-02T00:00:00.000Z'') (toy_hash folder_a)
          (store_of [folder_a, folder_b, folder_a])) = Inr True
   \<and> well_formed (current_text (store_of [folder_a, folder_b, folder_a]))
   \<and> urls_of (snd (removeLink toy_hash (js ''2025-01-02T00:00:00.000Z'') (toy_hash folder_a)
                     (store_of [folder_a, folder_b, folder_a]))) = [folder_b]
   \<and> removeLink toy_hash (js ''2025-01-03T00:00:00.000Z'') (toy_hash folder_a)
        (snd (removeLink toy_hash (js ''2025-01-02T00:00:00.000Z'') (toy_hash folder_a)
                (store_of [folder_a, folder_b, folder_a])))
      = (Inr False,
         snd (removeLink toy_hash (js ''2025-01-02T00:00:00.000Z'') (toy_hash folder_a)
                (store_of [folder_a, folder_b, folder_a])))"
proof -
  let ?f = "store_of [folder_a, folder_b, folder_a]"
  let ?r = "removeLink toy_hash (js ''2025-01-02T00:00:00.000Z'') (toy_hash folder_a) ?f"
  have u: "urls_of ?f = [folder_a, folder_b, folder_a]"
    by (rule urls_of_store_of) (simp add: one_line_folder)
  have t: "well_formed (current_text ?f)"
    unfolding current_text_store_of
    by (rule well_formed_lines_text) (simp add: well_formed_folder)
  have c: "content ?f \<noteq> Inl EIO" "\<not> write_fails ?f"
    by (simp_all add: store_of_def)
  have "fst ?r = Inr True"
    using c by (simp add: removeLink_eq u generateId_def)
  then have r: "?r = (Inr True, snd ?r)"
    by (metis prod.collapse)
  have k: "filter (\<lambda>u. generateId toy_hash u \<noteq> toy_hash folder_a) (urls_of ?f) = [folder_b]"
    using folder_a_b by (simp add: u generateId_def toy_hash_inject)
  from removeLink_removes_every_match
         [of toy_hash "js ''2025-01-02T00:00:00.000Z''" "toy_hash folder_a" ?f "snd ?r"
             "[]" "js ''2025-01-03T00:00:00.000Z''"]
       r t
  have "urls_of (snd ?r)
          = filter (\<lambda>u. generateId toy_hash u \<noteq> toy_hash folder_a) (urls_of ?f)
        \<and> removeLink toy_hash (js ''2025-01-03T00:00:00.000Z'') (toy_hash folder_a) (snd ?r)
          = (Inr False, snd ?r)"
    by blast
  with \<open>fst ?r = Inr True\<close> t show ?thesis by (simp only: k simp_thms)
qed

subsection \<open>Adding links\<close>

lemma folder_lines:
  "folder_a @ js ''\<newline>'' @ folder_a @ js ''\<newline>''
     = js ''https://mega.nz/folder/a\<newline>https://mega.nz/folder/a\<newline>''"
  by (simp add: folder_a_def js_append)

lemma no_file_facts:
  "ensureDirectoryExists no_file = Inr no_file" "readLinks H no_file = Inr []"
  "content no_file = Inl ENOENT" "\<not> write_fails no_file" "urls_of no_file = []"
  "current_text no_file = []" "dir_exists no_file" "writes no_file = 0"
  by (simp_all add: no_file_def ensureDirectoryExists_def readLinks_def urls_of_def
      current_text_def)

text \<open>
  C3, on the code. \<open>addBulkLinks\<close> removes from its input the urls that the store
  holds, and nothing else: a url that is twice in the input and not in the store is
  written on two lines. On a store with no file, \<open>addBulkLinks\<close> of the same url twice
  returns 2, the file holds the url on two lines, and \<open>readLinks\<close> returns it twice.
  \<open>addLink\<close> of that url twice leaves it on one line.
\<close>

theorem addBulkLinks_writes_input_duplicates:
  "fst (addBulkLinks H now [folder_a, folder_a] no_file) = Inr 2
   \<and> content (snd (addBulkLinks H now [folder_a, folder_a] no_file))
       = Inr (js ''https://mega.nz/folder/a\<newline>https://mega.nz/folder/a\<newline>'')
   \<and> urls_of (snd (addBulkLinks H now [folder_a, folder_a] no_file)) = [folder_a, folder_a]
   \<and> \<not> distinct (urls_of (snd (addBulkLinks H now [folder_a, folder_a] no_file)))
   \<and> urls_of (snd (addLink H now' folder_a (snd (addLink H now folder_a no_file))))
       = [folder_a]"
proof -
  let ?t = "js ''https://mega.nz/folder/a\<newline>https://mega.nz/folder/a\<newline>''"
  have w: "toWellFormed ?t = ?t"
    using well_formed_js [of "''https://mega.nz/folder/a\<newline>https://mega.nz/folder/a\<newline>''"]
    by (simp only: well_formed_def)
  have r: "addBulkLinks H now [folder_a, folder_a] no_file
             = (Inr 2, no_file\<lparr>content := Inr ?t, mtime := now, writes := 1\<rparr>)"
    by (simp add: addBulkLinks_def no_file_facts Let_def separator_def write_and_rename_def
        folder_lines w)
  have "?t = folder_a @ 0xA # (folder_a @ 0xA # [])"
    by (simp add: folder_lines [symmetric] js_newline)
  then have "stored_urls ?t = stored_urls folder_a @ stored_urls folder_a @ stored_urls []"
    by (simp only: stored_urls_append)
  then have s: "stored_urls ?t = [folder_a, folder_a]"
    by (simp add: stored_urls_one_line one_line_folder stored_urls_Nil)
  have u: "urls_of (snd (addBulkLinks H now [folder_a, folder_a] no_file))
             = [folder_a, folder_a]"
    by (simp only: r snd_conv urls_of_written s)
  have a1: "addLink H now folder_a no_file
              = (Inr (generateId H folder_a, True),
                 no_file\<lparr>dir_exists := True,
                   content := Inr (toWellFormed ([] @ separator [] @ folder_a @ [0xA])),
                   mtime := now, writes := 0 + 1\<rparr>)"
    by (simp add: addLink_eq no_file_facts)
  have "toWellFormed ([] @ separator [] @ folder_a @ [0xA]) = folder_a @ [0xA]"
    using well_formed_appended [OF well_formed_Nil well_formed_folder(1)]
    by (simp add: well_formed_def separator_def)
  moreover have "stored_urls (folder_a @ 0xA # []) = stored_urls folder_a @ stored_urls []"
    by (rule stored_urls_append)
  ultimately have a2: "urls_of (snd (addLink H now folder_a no_file)) = [folder_a]"
    by (simp add: a1 urls_of_def stored_urls_one_line one_line_folder stored_urls_Nil)
  define f1 where "f1 = snd (addLink H now folder_a no_file)"
  have d: "dir_exists f1" "content f1 \<noteq> Inl EIO"
    by (simp_all add: f1_def a1)
  have a2': "urls_of f1 = [folder_a]"
    using a2 by (simp only: f1_def)
  have "addLink H now' folder_a f1
          = (Inr (generateId H folder_a, False), f1\<lparr>dir_exists := True\<rparr>)"
    using d a2' by (simp add: addLink_eq)
  then have "urls_of (snd (addLink H now' folder_a f1)) = [folder_a]"
    using a2' by (simp add: urls_of_def)
  then have a3: "urls_of (snd (addLink H now' folder_a (snd (addLink H now folder_a no_file))))
                   = [folder_a]"
    by (simp only: f1_def)
  from r u a3 show ?thesis by simp
qed








section \<open>Properties of the log framer\<close>

subsection \<open>The loop and the bytes that remain\<close>

lemma readUInt32BE_append:
  "i + 3 < length xs \<Longrightarrow> readUInt32BE (xs @ c) i = readUInt32BE xs i"
  by (simp add: readUInt32BE_def nth_append)

lemma readUInt32BE_drop:
  "p + i + 3 < length buf \<Longrightarrow> readUInt32BE (drop p buf) i = readUInt32BE buf (p + i)"
  by (simp add: readUInt32BE_def add.assoc)

lemma frames_short: "length bs < 8 \<Longrightarrow> frames utf8 bs = ([], bs)"
  by (subst frames.simps) simp

lemma frames_partial:
  "8 \<le> length bs \<Longrightarrow> length bs < 8 + readUInt32BE bs 4 \<Longrightarrow> frames utf8 bs = ([], bs)"
  by (subst frames.simps) simp

lemma frames_complete:
  "8 + readUInt32BE bs 4 \<le> length bs \<Longrightarrow>
     frames utf8 bs =
       (frame_records utf8 (bs ! 0) (take (readUInt32BE bs 4) (drop 8 bs))
          @ fst (frames utf8 (drop (8 + readUInt32BE bs 4) bs)),
        snd (frames utf8 (drop (8 + readUInt32BE bs 4) bs)))"
  by (subst frames.simps) (simp add: case_prod_beta)

lemma frames_rest: "\<exists>k \<le> length bs. snd (frames utf8 bs) = drop k bs"
proof (induction utf8 bs rule: frames.induct)
  case (1 utf8 bs)
  show ?case
  proof (cases "8 + readUInt32BE bs 4 \<le> length bs")
    case True
    then have "\<exists>k \<le> length (drop (8 + readUInt32BE bs 4) bs).
                 snd (frames utf8 (drop (8 + readUInt32BE bs 4) bs))
                   = drop k (drop (8 + readUInt32BE bs 4) bs)"
      by (intro 1) simp_all
    then obtain k where k: "k \<le> length bs - (8 + readUInt32BE bs 4)"
      "snd (frames utf8 (drop (8 + readUInt32BE bs 4) bs))
         = drop (k + (8 + readUInt32BE bs 4)) bs"
      by auto
    from k(1) True have "k + (8 + readUInt32BE bs 4) \<le> length bs" by simp
    with k(2) True show ?thesis by (auto simp: frames_complete)
  next
    case False
    then have "frames utf8 bs = ([], bs)"
      by (cases "length bs < 8") (simp_all add: frames_short frames_partial)
    then have "0 \<le> length bs \<and> snd (frames utf8 bs) = drop 0 bs" by simp
    then show ?thesis by blast
  qed
qed

lemma frames_append:
  "frames utf8 (xs @ c) =
     (fst (frames utf8 xs) @ fst (frames utf8 (snd (frames utf8 xs) @ c)),
      snd (frames utf8 (snd (frames utf8 xs) @ c)))"
proof (induction utf8 xs rule: frames.induct)
  case (1 utf8 xs)
  show ?case
  proof (cases "8 + readUInt32BE xs 4 \<le> length xs")
    case True
    let ?n = "readUInt32BE xs 4"
    have r: "readUInt32BE (xs @ c) 4 = ?n"
      using True by (simp add: readUInt32BE_append)
    have a: "8 + readUInt32BE (xs @ c) 4 \<le> length (xs @ c)"
      using True r by simp
    have d: "drop (8 + ?n) (xs @ c) = drop (8 + ?n) xs @ c"
      "take ?n (drop 8 (xs @ c)) = take ?n (drop 8 xs)" "(xs @ c) ! 0 = xs ! 0"
      using True by (auto simp: nth_append)
    have ih: "frames utf8 (drop (8 + ?n) xs @ c) =
       (fst (frames utf8 (drop (8 + ?n) xs))
          @ fst (frames utf8 (snd (frames utf8 (drop (8 + ?n) xs)) @ c)),
        snd (frames utf8 (snd (frames utf8 (drop (8 + ?n) xs)) @ c)))"
      using True by (intro 1) simp_all
    note fc = frames_complete [OF a, unfolded r d]
    show ?thesis
      by (simp add: fc ih frames_complete [OF True])
  next
    case False
    then have "frames utf8 xs = ([], xs)"
      by (cases "length xs < 8") (simp_all add: frames_short frames_partial)
    then show ?thesis by simp
  qed
qed

lemma frames_rest_again: "frames utf8 (snd (frames utf8 xs)) = ([], snd (frames utf8 xs))"
proof -
  have "frames utf8 (xs @ []) =
     (fst (frames utf8 xs) @ fst (frames utf8 (snd (frames utf8 xs) @ [])),
      snd (frames utf8 (snd (frames utf8 xs) @ [])))"
    by (rule frames_append)
  then have "fst (frames utf8 xs) = fst (frames utf8 xs) @ fst (frames utf8 (snd (frames utf8 xs)))"
    "snd (frames utf8 xs) = snd (frames utf8 (snd (frames utf8 xs)))"
    by (simp_all add: prod_eq_iff)
  then show ?thesis by (simp add: prod_eq_iff)
qed

lemma demux_loop_frames:
  "processed \<le> length buffer \<Longrightarrow>
     demux_loop utf8 buffer processed =
       (fst (frames utf8 (drop processed buffer)),
        length buffer - length (snd (frames utf8 (drop processed buffer))))"
proof (induction utf8 buffer processed rule: demux_loop.induct)
  case (1 utf8 buffer processed)
  let ?bs = "drop processed buffer"
  show ?case
  proof (cases "processed < length buffer")
    case False
    with 1(2) have "?bs = []" by simp
    with False 1(2) show ?thesis
      by (subst demux_loop.simps) (simp add: frames_short)
  next
    case lt: True
    show ?thesis
    proof (cases "length buffer - processed < 8")
      case True
      then have "frames utf8 ?bs = ([], ?bs)" by (simp add: frames_short)
      with lt True show ?thesis
        by (subst demux_loop.simps) simp
    next
      case hd: False
      then have r: "readUInt32BE ?bs 4 = readUInt32BE buffer (processed + 4)"
        by (simp add: readUInt32BE_drop)
      let ?n = "readUInt32BE buffer (processed + 4)"
      show ?thesis
      proof (cases "length buffer - processed < 8 + ?n")
        case True
        with hd r have "frames utf8 ?bs = ([], ?bs)" by (simp add: frames_partial)
        with lt hd True show ?thesis
          by (subst demux_loop.simps) simp
      next
        case False
        then have le: "processed + (8 + ?n) \<le> length buffer" by simp
        have c: "8 + readUInt32BE ?bs 4 \<le> length ?bs" using False r by simp
        have ih: "demux_loop utf8 buffer (processed + (8 + ?n)) =
                    (fst (frames utf8 (drop (processed + (8 + ?n)) buffer)),
                     length buffer
                       - length (snd (frames utf8 (drop (processed + (8 + ?n)) buffer))))"
          using lt hd False le by (intro 1(1)) simp_all
        have d: "drop (8 + ?n) ?bs = drop (processed + (8 + ?n)) buffer"
          "take ?n (drop 8 ?bs) = take ?n (drop (processed + 8) buffer)"
          "?bs ! 0 = buffer ! processed"
          using lt by (simp_all add: add.commute)
        note fc = frames_complete [OF c, unfolded r d]
        show ?thesis
          using lt hd False
          by (subst demux_loop.simps) (simp add: Let_def ih fc)
      qed
    qed
  qed
qed

lemma processLogData_frames:
  "processLogData utf8 clock buffer chunk =
     (snd (frames utf8 (buffer @ chunk)), stamp clock (fst (frames utf8 (buffer @ chunk))))"
proof -
  let ?b = "buffer @ chunk"
  obtain k where k: "k \<le> length ?b" "snd (frames utf8 ?b) = drop k ?b"
    using frames_rest [of ?b utf8] by blast
  then have "length ?b - length (snd (frames utf8 ?b)) = k" by simp
  then have "demux_loop utf8 ?b 0 = (fst (frames utf8 ?b), k)"
    using demux_loop_frames [of 0 ?b utf8] by simp
  then show ?thesis
    by (simp add: processLogData_def Let_def k(2))
qed

subsection \<open>The clock\<close>

lemma length_stamp: "length (stamp clock rs) = length rs"
  by (simp add: stamp_def)

lemma map2_snd: "length ks = length rs \<Longrightarrow> map2 (\<lambda>k. g) ks rs = map g rs"
  by (induction ks rs rule: list_induct2) simp_all

lemma stamp_by:
  assumes "\<And>k r. r \<in> set rs \<Longrightarrow> logEntry (clock k) r = g r"
  shows "stamp clock rs = map g rs"
proof -
  have "map (\<lambda>(k, r). logEntry (clock k) r) (zip [0..<length rs] rs)
          = map (\<lambda>(k, r). g r) (zip [0..<length rs] rs)"
    using assms by (auto dest: set_zip_rightD)
  also have "\<dots> = map g rs"
    by (simp add: map2_snd)
  finally show ?thesis by (simp only: stamp_def)
qed

lemma stamp_clock_at: "stamp (clock_at now) rs = map (logEntry now) rs"
  by (rule stamp_by) (simp add: clock_at_def)

lemma stamp_embedded:
  "list_all (\<lambda>r. embedded r \<noteq> None) rs \<Longrightarrow> stamp clock rs = map (logEntry []) rs"
  by (rule stamp_by) (auto simp: list_all_iff logEntry_def)

lemma stamp_view:
  "map (\<lambda>e. (line e, level e)) (stamp clock rs) = map (\<lambda>r. (text_of r, level_of r)) rs"
proof -
  have "map (\<lambda>e. (line e, level e)) (stamp clock rs)
          = map (\<lambda>(k, r). (text_of r, level_of r)) (zip [0..<length rs] rs)"
    by (simp add: stamp_def logEntry_def case_prod_beta comp_def)
  also have "\<dots> = map (\<lambda>r. (text_of r, level_of r)) rs"
    by (simp add: map2_snd)
  finally show ?thesis .
qed

subsection \<open>Chunks\<close>

lemma feed_frames:
  assumes "P [] []"
    and "\<And>a b a' b'. P a b \<Longrightarrow> P a' b' \<Longrightarrow> P (a @ a') (b @ b')"
  shows "frames utf8 b = ([], b) \<Longrightarrow> (\<And>clock chunk rs. (clock, chunk) \<in> set tcs \<Longrightarrow> P (stamp clock rs) rs)
     \<Longrightarrow> fst (feed utf8 b tcs) = snd (frames utf8 (b @ concat (map snd tcs)))
       \<and> P (snd (feed utf8 b tcs)) (fst (frames utf8 (b @ concat (map snd tcs))))"
proof (induction tcs arbitrary: b)
  case Nil
  then show ?case by (simp add: assms(1))
next
  case (Cons tc tcs)
  obtain clock chunk where tc: "tc = (clock, chunk)" by (cases tc)
  let ?b' = "snd (frames utf8 (b @ chunk))"
  let ?rs = "fst (frames utf8 (b @ chunk))"
  have ih: "fst (feed utf8 ?b' tcs) = snd (frames utf8 (?b' @ concat (map snd tcs)))
       \<and> P (snd (feed utf8 ?b' tcs)) (fst (frames utf8 (?b' @ concat (map snd tcs))))"
  proof (rule Cons.IH)
    show "frames utf8 ?b' = ([], ?b')" by (rule frames_rest_again)
  next
    fix clock chunk rs
    assume "(clock, chunk) \<in> set tcs"
    then show "P (stamp clock rs) rs" using Cons.prems(2) [of clock chunk rs] by simp
  qed
  have p: "P (stamp clock ?rs) ?rs"
    using Cons.prems(2) [of clock chunk] tc by simp
  have a: "frames utf8 ((b @ chunk) @ concat (map snd tcs)) =
             (?rs @ fst (frames utf8 (?b' @ concat (map snd tcs))),
              snd (frames utf8 (?b' @ concat (map snd tcs))))"
    by (rule frames_append)
  have f: "feed utf8 b ((clock, chunk) # tcs)
             = (fst (feed utf8 ?b' tcs), stamp clock ?rs @ snd (feed utf8 ?b' tcs))"
    by (simp add: processLogData_frames case_prod_beta)
  show ?case
    unfolding tc f
    using ih p a assms(2) [OF p conjunct2 [OF ih]] by simp
qed

end
